theory Spec2Isabelle
  imports Main "HOL-Library.Word"
begin

unbundle bit_operations_syntax

section \<open>Machine integers of the target\<close>

text \<open>
  The program runs on a 32-bit Arm Cortex-M4.  Its integer types are two's complement
  words: \<open>int32\<close>, \<open>int16\<close>, \<open>uint16\<close> and \<open>uint8\<close>.  Signed values are read with
  \<open>sint\<close>, unsigned ones with \<open>uint\<close>/\<open>unat\<close>.  Arithmetic on words wraps around, a
  conversion to a narrower type keeps the low bits, \<open>>>\<close> on a signed value is the
  arithmetic shift \<open>signed_drop_bit\<close> and \<open><<\<close> is \<open>push_bit\<close>, as the compilers of
  this target define them.
\<close>

type_synonym int32 = "32 word"
type_synonym int16 = "16 word"
type_synonym uint16 = "16 word"
type_synonym uint8 = "8 word"

section \<open>Macros of main.c\<close>

definition THERMISTOR_SENSOR_CHANNEL :: nat where
  "THERMISTOR_SENSOR_CHANNEL = 1"

definition REF_RESISTOR_CHANNEL :: nat where
  "REF_RESISTOR_CHANNEL = 0"

definition ALS_SENSOR_CHANNEL :: nat where
  "ALS_SENSOR_CHANNEL = 2"

definition CHANNEL_COUNT :: nat where
  "CHANNEL_COUNT = 3"

definition ALS_OFFSET :: int32 where
  "ALS_OFFSET = 20"

definition ALS_LOW_THRESHOLD :: int where
  "ALS_LOW_THRESHOLD = 45"

definition ALS_HIGH_THRESHOLD :: int where
  "ALS_HIGH_THRESHOLD = 55"

definition ALS_DARK_AMBIENT_RAW_DATA :: int where
  "ALS_DARK_AMBIENT_RAW_DATA = 0xFFF0"

definition ALS_DARK_AMBIENT_DATA :: int32 where
  "ALS_DARK_AMBIENT_DATA = 0"

section \<open>get_light_intensity\<close>

text \<open>
  The value of the local \<open>als_level\<close> after the assignment
  \<open>als_level = ((adc_count * 100)>>10) - ALS_OFFSET\<close>, that is before the two limiting
  statements.  The 32-bit result of the right-hand side is stored into an \<open>int16\<close>.
\<close>

definition als_level_unclamped :: "int32 \<Rightarrow> int16" where
  "als_level_unclamped adc_count =
     (let adc_count = (if adc_count <s 0 then 0 else adc_count)
      in scast (signed_drop_bit 10 (adc_count * 100) - ALS_OFFSET))"

definition get_light_intensity :: "int32 \<Rightarrow> uint8" where
  "get_light_intensity adc_count =
     (let als_level = als_level_unclamped adc_count;
          als_level = (if 100 <s als_level then 100 else als_level);
          als_level = (if als_level <s 0 then 0 else als_level)
      in ucast als_level)"

section \<open>low_pass_filter\<close>

text \<open>
  The global array \<open>filt_var\<close> is passed in and returned updated, next to the result \<open>k\<close>.
  The three cases of the \<open>switch\<close> index the array with constants, in the source's order.
\<close>

definition low_pass_filter :: "int32 \<Rightarrow> uint8 \<Rightarrow> int32 list \<Rightarrow> int32 \<times> int32 list" where
  "low_pass_filter input0 data_source fv =
     (let input = push_bit 8 input0 in
      if data_source = of_nat THERMISTOR_SENSOR_CHANNEL then
        (let fv' = fv[THERMISTOR_SENSOR_CHANNEL :=
                        fv ! THERMISTOR_SENSOR_CHANNEL
                        + signed_drop_bit 8 (input - fv ! THERMISTOR_SENSOR_CHANNEL) * 160]
         in (signed_drop_bit 8 (fv' ! THERMISTOR_SENSOR_CHANNEL)
               + signed_drop_bit 7 (fv' ! THERMISTOR_SENSOR_CHANNEL AND 0x00000080), fv'))
      else if data_source = of_nat REF_RESISTOR_CHANNEL then
        (let fv' = fv[REF_RESISTOR_CHANNEL :=
                        fv ! REF_RESISTOR_CHANNEL
                        + signed_drop_bit 8 (input - fv ! REF_RESISTOR_CHANNEL) * 160]
         in (signed_drop_bit 8 (fv' ! REF_RESISTOR_CHANNEL)
               + signed_drop_bit 7 (fv' ! REF_RESISTOR_CHANNEL AND 0x00000080), fv'))
      else if data_source = of_nat ALS_SENSOR_CHANNEL then
        (let fv' = fv[ALS_SENSOR_CHANNEL :=
                        fv ! ALS_SENSOR_CHANNEL
                        + signed_drop_bit 8 (input - fv ! ALS_SENSOR_CHANNEL) * 4]
         in (signed_drop_bit 8 (fv' ! ALS_SENSOR_CHANNEL)
               + signed_drop_bit 7 (fv' ! ALS_SENSOR_CHANNEL AND 0x00000080), fv'))
      else (0, fv))"

section \<open>get_temperature\<close>

text \<open>
  \<open>get_temperature\<close> computes in floating point: a \<open>double\<close> product and quotient, the
  single-precision logarithm \<open>logf\<close> and a sum.  Its division by \<open>ref_count\<close> is a
  floating-point division and has no integer counterpart, so the function is not
  embedded; the model keeps the two integer arguments of its call (see \<open>Status_line\<close>
  below).
\<close>

section \<open>The main loop\<close>

text \<open>
  Modelled from the spec: the structure \<open>cy_stc_sar_fifo_read_t\<close> of an entry read from
  the SAR FIFO by \<open>Cy_SAR_FifoRead\<close>, which is declared in the vendor's driver library
  and not in this repository.  The specification's sample is a channel, identified by a
  small integer tag, and a raw value, an unsigned 16-bit integer.
\<close>

record fifo_read =
  fifo_value :: uint16
  channel :: nat

datatype led_state = CYBSP_LED_STATE_ON | CYBSP_LED_STATE_OFF

text \<open>
  The variables that live across iterations of \<open>for (;;)\<close>: the global \<open>filt_var\<close> and
  \<open>fifo_intr_flag\<close>, the locals \<open>filtered_data\<close>, \<open>first_run\<close> and \<open>display_delay\<close> of
  \<open>main\<close>, and the level last written to the pin \<open>CYBSP_USER_LED2\<close>.
\<close>

record state =
  filt_var :: "int32 list"
  filtered_data :: "int32 list"
  first_run :: "bool list"
  display_delay :: uint16
  led :: led_state
  fifo_intr_flag :: bool

text \<open>
  The arguments of the \<open>printf\<close> of one status line: the two counts handed to
  \<open>get_temperature\<close> (whose floating-point result is printed) and the light intensity.
\<close>

datatype status_line = Status_line (therm_count: int32) (ref_count: int32) (light: uint8)

text \<open>
  The body of the \<open>while (data_count > 0)\<close> loop for one FIFO entry.  Indexing the
  three-element arrays with a channel that is not below \<open>CHANNEL_COUNT\<close> is outside what
  C defines: the model returns \<open>None\<close> there.
\<close>

definition process_sample :: "state \<Rightarrow> fifo_read \<Rightarrow> state option" where
  "process_sample st fifo_data =
     (let ch = channel fifo_data in
      if \<not> ch < CHANNEL_COUNT then None
      else if first_run st ! ch then
        (if ch = ALS_SENSOR_CHANNEL \<and> ALS_DARK_AMBIENT_RAW_DATA \<le> uint (fifo_value fifo_data)
         then Some (st\<lparr>filtered_data := (filtered_data st)[ch := ALS_DARK_AMBIENT_DATA],
                       filt_var := (filt_var st)[ch := ALS_DARK_AMBIENT_DATA],
                       first_run := (first_run st)[ch := False]\<rparr>)
         else Some (st\<lparr>filtered_data := (filtered_data st)[ch := ucast (fifo_value fifo_data)],
                       filt_var := (filt_var st)[ch := push_bit 8 (ucast (fifo_value fifo_data))],
                       first_run := (first_run st)[ch := False]\<rparr>))
      else
        (let (k, fv) = low_pass_filter (scast (fifo_value fifo_data)) (of_nat ch) (filt_var st)
         in Some (st\<lparr>filtered_data := (filtered_data st)[ch := k], filt_var := fv\<rparr>)))"

text \<open>
  The \<open>while (data_count > 0)\<close> loop: the list holds the \<open>data_count\<close> entries that the
  successive calls of \<open>Cy_SAR_FifoRead\<close> return in this pass, oldest first.
\<close>

fun drain :: "state \<Rightarrow> fifo_read list \<Rightarrow> state option" where
  "drain st [] = Some st"
| "drain st (fifo_data # rest) =
     (case process_sample st fifo_data of
        None \<Rightarrow> None
      | Some st' \<Rightarrow> drain st' rest)"

text \<open>
  The LED control statement: the level that \<open>cyhal_gpio_write\<close> is called with, or
  \<open>None\<close> when neither branch calls it.
\<close>

definition led_write :: "uint8 \<Rightarrow> led_state option" where
  "led_write light_intensity =
     (if uint light_intensity < ALS_LOW_THRESHOLD then Some CYBSP_LED_STATE_ON
      else if ALS_HIGH_THRESHOLD < uint light_intensity then Some CYBSP_LED_STATE_OFF
      else None)"

definition led_control :: "uint8 \<Rightarrow> led_state \<Rightarrow> led_state" where
  "led_control light_intensity pin =
     (case led_write light_intensity of None \<Rightarrow> pin | Some level \<Rightarrow> level)"

text \<open>The rate-divided \<open>printf\<close>: the new counter and the lines printed.\<close>

definition report :: "uint16 \<Rightarrow> status_line \<Rightarrow> uint16 \<times> status_line list" where
  "report delay line = (if delay = 4 then (0, [line]) else (delay + 1, []))"

text \<open>The statements executed when the flag is found set (the body of the \<open>if\<close>).\<close>

definition process_batch :: "state \<Rightarrow> fifo_read list \<Rightarrow> (state \<times> status_line list) option" where
  "process_batch st fifo =
     (case drain (st\<lparr>fifo_intr_flag := False\<rparr>) fifo of
        None \<Rightarrow> None
      | Some st1 \<Rightarrow>
          (let light_intensity = get_light_intensity (filtered_data st1 ! ALS_SENSOR_CHANNEL);
               line = Status_line (filtered_data st1 ! THERMISTOR_SENSOR_CHANNEL)
                                  (filtered_data st1 ! REF_RESISTOR_CHANNEL) light_intensity;
               (delay, out) = report (display_delay st1) line
           in Some (st1\<lparr>led := led_control light_intensity (led st1),
                        display_delay := delay\<rparr>, out)))"

text \<open>
  One iteration of \<open>for (;;)\<close> after the wake-up from deep sleep.  The wait for the
  UART and the deep sleep itself are waits on the hardware and change none of the
  variables.
\<close>

definition main_iteration :: "state \<Rightarrow> fifo_read list \<Rightarrow> (state \<times> status_line list) option" where
  "main_iteration st fifo =
     (if fifo_intr_flag st then process_batch st fifo else Some (st, []))"

definition sar_fifo_interrupt_handler :: "state \<Rightarrow> state" where
  "sar_fifo_interrupt_handler st = st\<lparr>fifo_intr_flag := True\<rparr>"

text \<open>
  What happens to the program: the FIFO interrupt fires, or the CPU wakes up and runs one
  iteration of the loop on the entries it finds in the FIFO.
\<close>

datatype event = Fifo_interrupt | Wake_up "fifo_read list"

fun main_loop :: "state \<Rightarrow> event list \<Rightarrow> (state \<times> status_line list) option" where
  "main_loop st [] = Some (st, [])"
| "main_loop st (Fifo_interrupt # es) = main_loop (sar_fifo_interrupt_handler st) es"
| "main_loop st (Wake_up fifo # es) =
     (case main_iteration st fifo of
        None \<Rightarrow> None
      | Some (st', out) \<Rightarrow>
          (case main_loop st' es of
             None \<Rightarrow> None
           | Some (st'', out') \<Rightarrow> Some (st'', out @ out')))"

text \<open>
  The state when the loop is entered.  \<open>filt_var\<close> is a zero-initialised global,
  \<open>first_run\<close> is initialised to three times \<open>true\<close>, \<open>display_delay\<close> to 0, the pin to
  \<open>CYBSP_LED_STATE_OFF\<close>.  \<open>filtered_data\<close> has no initialiser: its three elements
  \<open>d0\<close>, \<open>d1\<close>, \<open>d2\<close> are whatever the stack holds.
\<close>

definition init_state :: "int32 \<Rightarrow> int32 \<Rightarrow> int32 \<Rightarrow> state" where
  "init_state d0 d1 d2 =
     \<lparr>filt_var = [0, 0, 0], filtered_data = [d0, d1, d2], first_run = [True, True, True],
      display_delay = 0, led = CYBSP_LED_STATE_OFF, fifo_intr_flag = False\<rparr>"

section \<open>Auxiliary notions used in the statements\<close>

text \<open>The three arrays have \<open>CHANNEL_COUNT\<close> elements.\<close>

definition wf_state :: "state \<Rightarrow> bool" where
  "wf_state st \<longleftrightarrow>
     length (filt_var st) = CHANNEL_COUNT \<and>
     length (filtered_data st) = CHANNEL_COUNT \<and>
     length (first_run st) = CHANNEL_COUNT"

text \<open>Every entry of a FIFO content carries one of the three channel numbers.\<close>

definition valid_fifo :: "fifo_read list \<Rightarrow> bool" where
  "valid_fifo fifo = list_all (\<lambda>fifo_data. channel fifo_data < CHANNEL_COUNT) fifo"

fun valid_events :: "event list \<Rightarrow> bool" where
  "valid_events [] = True"
| "valid_events (Fifo_interrupt # es) = valid_events es"
| "valid_events (Wake_up fifo # es) = (valid_fifo fifo \<and> valid_events es)"

text \<open>
  The value that the first-run branch stores for a raw sample: the condition and the two
  values are those of the inner \<open>if\<close> of that branch.
\<close>

definition cold_start_input :: "nat \<Rightarrow> uint16 \<Rightarrow> int32" where
  "cold_start_input ch raw =
     (if ch = ALS_SENSOR_CHANNEL \<and> ALS_DARK_AMBIENT_RAW_DATA \<le> uint raw
      then ALS_DARK_AMBIENT_DATA else ucast raw)"

text \<open>
  How often the first-run branch is entered for channel \<open>c\<close> while the entries of a
  list are processed one after the other, starting in \<open>st\<close>.
\<close>

fun cold_start_count :: "nat \<Rightarrow> state \<Rightarrow> fifo_read list \<Rightarrow> nat" where
  "cold_start_count c st [] = 0"
| "cold_start_count c st (fifo_data # rest) =
     (if channel fifo_data = c \<and> first_run st ! c then 1 else 0)
     + (case process_sample st fifo_data of
          None \<Rightarrow> 0
        | Some st' \<Rightarrow> cold_start_count c st' rest)"

text \<open>
  The number of wake-ups of an event sequence that find the flag set, that is the number
  of drain cycles; \<open>flag\<close> is the value of \<open>fifo_intr_flag\<close> at the start.
\<close>

fun drain_cycles :: "bool \<Rightarrow> event list \<Rightarrow> nat" where
  "drain_cycles flag [] = 0"
| "drain_cycles flag (Fifo_interrupt # es) = drain_cycles True es"
| "drain_cycles flag (Wake_up fifo # es) =
     (if flag then Suc (drain_cycles False es) else drain_cycles flag es)"

text \<open>
  The FIFO entries that a run of the main loop processes, in order: the contents found
  by the wake-ups that find the flag set.
\<close>

fun processed_entries :: "bool \<Rightarrow> event list \<Rightarrow> fifo_read list" where
  "processed_entries flag [] = []"
| "processed_entries flag (Fifo_interrupt # es) = processed_entries True es"
| "processed_entries flag (Wake_up fifo # es) =
     (if flag then fifo @ processed_entries False es else processed_entries flag es)"

text \<open>
  How often the first-run branch is entered for channel \<open>c\<close> during a run of the
  main loop.
\<close>

fun run_cold_starts :: "nat \<Rightarrow> state \<Rightarrow> event list \<Rightarrow> nat" where
  "run_cold_starts c st [] = 0"
| "run_cold_starts c st (Fifo_interrupt # es) =
     run_cold_starts c (sar_fifo_interrupt_handler st) es"
| "run_cold_starts c st (Wake_up fifo # es) =
     (if fifo_intr_flag st then cold_start_count c (st\<lparr>fifo_intr_flag := False\<rparr>) fifo else 0)
     + (case main_iteration st fifo of
          None \<Rightarrow> 0
        | Some (st', out) \<Rightarrow> run_cold_starts c st' es)"

text \<open>The pin after a sequence of light intensities, one LED control statement each.\<close>

fun led_sequence :: "led_state \<Rightarrow> uint8 list \<Rightarrow> led_state" where
  "led_sequence pin [] = pin"
| "led_sequence pin (light_intensity # rest) =
     led_sequence (led_control light_intensity pin) rest"

text \<open>
  The range of the accumulators: the least value is \<open>-32768 * 256 - 255\<close>, the
  greatest \<open>65535 * 256\<close>.
\<close>

definition filt_var_in_range :: "state \<Rightarrow> bool" where
  "filt_var_in_range st =
     list_all (\<lambda>acc. - 8388863 \<le> sint acc \<and> sint acc \<le> 16776960) (filt_var st)"

subsection \<open>The filter as the specification words it\<close>

text \<open>
  The specification gives the steady-state filter on integers without a width:
  \<open>accumulator += ((input<<8 - accumulator) >> 8) * weight\<close> with weight 160 for the
  thermistor and the reference resistor and 4 for the ambient light sensor, and the result
  \<open>(accumulator >> 8)\<close> plus 1 if the bit of value \<open>0x80\<close> is set.
\<close>

definition spec_weight :: "nat \<Rightarrow> int" where
  "spec_weight ch = (if ch = ALS_SENSOR_CHANNEL then 4 else 160)"

definition spec_accumulate :: "int \<Rightarrow> int \<Rightarrow> int \<Rightarrow> int" where
  "spec_accumulate weight accumulator input =
     accumulator + drop_bit 8 (push_bit 8 input - accumulator) * weight"

definition spec_filtered :: "int \<Rightarrow> int" where
  "spec_filtered accumulator = drop_bit 8 accumulator + (if bit accumulator 7 then 1 else 0)"

subsection \<open>An example run\<close>

text \<open>
  Five drain cycles: the first finds one sample of each channel in the FIFO, the others
  an empty FIFO; the third event is a wake-up that finds the flag cleared.
\<close>

definition example_events :: "event list" where
  "example_events =
     [Fifo_interrupt,
      Wake_up [\<lparr>fifo_value = 2000, channel = 1\<rparr>, \<lparr>fifo_value = 1990, channel = 0\<rparr>,
               \<lparr>fifo_value = 500, channel = 2\<rparr>],
      Wake_up [\<lparr>fifo_value = 2100, channel = 1\<rparr>],
      Fifo_interrupt, Wake_up [],
      Fifo_interrupt, Wake_up [],
      Fifo_interrupt, Wake_up [],
      Fifo_interrupt, Wake_up []]"

section \<open>Properties of get_light_intensity\<close>

lemma sint32_times_100:
  fixes a :: int32
  assumes "0 \<le> sint a" and "sint a \<le> 21474836"
  shows "sint (a * 100) = sint a * 100"
proof -
  have "sint (a * 100) = signed_take_bit 31 (sint a * sint (100 :: int32))"
    by (simp add: sint_word_ariths)
  also have "sint (100 :: int32) = 100"
    by simp
  finally show ?thesis
    using assms by (simp add: signed_take_bit_int_eq_self)
qed

lemma sint16_of_int32:
  fixes w :: int32
  assumes "- 32768 \<le> sint w" and "sint w \<le> 32767"
  shows "sint (scast w :: int16) = sint w"
  using assms by (simp add: signed_scast_eq signed_take_bit_int_eq_self)

lemma uint8_of_int16:
  fixes l :: int16
  assumes "0 \<le> sint l" and "sint l \<le> 100"
  shows "uint (ucast l :: uint8) = sint l"
proof -
  have "uint l = sint l"
    using assms by (simp add: uint_sint take_bit_int_eq_self)
  moreover have "uint (ucast l :: uint8) = take_bit 8 (uint l)"
    by (simp add: unsigned_ucast_eq)
  ultimately show ?thesis
    using assms by (simp add: take_bit_int_eq_self)
qed

text \<open>A negative count is replaced by 0, which gives the level \<open>0 - ALS_OFFSET\<close>.\<close>

lemma als_level_unclamped_negative:
  assumes "sint adc_count < 0"
  shows "als_level_unclamped adc_count = - 20"
  using assms by (simp add: als_level_unclamped_def ALS_OFFSET_def word_sless_alt)

text \<open>
  Up to the count 335749 the 32-bit level fits into the \<open>int16\<close> variable, and the
  stored level is the one of the formula.
\<close>

lemma als_level_unclamped_sint:
  assumes "0 \<le> sint adc_count" and "sint adc_count \<le> 335749"
  shows "sint (als_level_unclamped adc_count) = sint adc_count * 100 div 1024 - 20"
proof -
  let ?q = "sint adc_count * 100 div 1024"
  have q: "0 \<le> ?q" "?q \<le> 32787"
    using assms by auto
  have m: "sint (adc_count * 100) = sint adc_count * 100"
    using assms by (simp add: sint32_times_100)
  have s: "sint (signed_drop_bit 10 (adc_count * 100)) = ?q"
    by (simp add: sint_signed_drop_bit_eq m drop_bit_eq_div)
  have d: "sint (signed_drop_bit 10 (adc_count * 100) - 20) = ?q - 20"
    using q by (simp add: sint_word_ariths s signed_take_bit_int_eq_self)
  have "sint (scast (signed_drop_bit 10 (adc_count * 100) - 20) :: int16) = ?q - 20"
    using q by (simp add: sint16_of_int32 d)
  then show ?thesis
    using assms by (simp add: als_level_unclamped_def ALS_OFFSET_def word_sless_alt)
qed

text \<open>The two limiting statements, for whatever level was stored.\<close>

lemma get_light_intensity_clamp:
  "uint (get_light_intensity adc_count) =
     max 0 (min 100 (sint (als_level_unclamped adc_count)))"
proof -
  let ?l = "als_level_unclamped adc_count"
  consider "100 < sint ?l" | "sint ?l < 0" | "0 \<le> sint ?l" "sint ?l \<le> 100"
    by linarith
  then show ?thesis
  proof cases
    case 1
    then show ?thesis
      by (simp add: get_light_intensity_def Let_def word_sless_alt)
  next
    case 2
    then show ?thesis
      by (simp add: get_light_intensity_def Let_def word_sless_alt)
  next
    case 3
    then show ?thesis
      by (simp add: get_light_intensity_def Let_def word_sless_alt uint8_of_int16)
  qed
qed

lemma get_light_intensity_le_100: "uint (get_light_intensity adc_count) \<le> 100"
  by (simp add: get_light_intensity_clamp)

lemma get_light_intensity_negative:
  assumes "sint adc_count < 0"
  shows "get_light_intensity adc_count = 0"
proof -
  have "uint (get_light_intensity adc_count) = 0"
    using assms by (simp add: get_light_intensity_clamp als_level_unclamped_negative)
  then show ?thesis
    by (simp add: word_uint_eq_iff)
qed

lemma get_light_intensity_saturates:
  assumes "1229 \<le> sint adc_count" and "sint adc_count \<le> 335749"
  shows "get_light_intensity adc_count = 100"
proof -
  have "sint (als_level_unclamped adc_count) = sint adc_count * 100 div 1024 - 20"
    using assms by (simp add: als_level_unclamped_sint)
  moreover have "120 \<le> sint adc_count * 100 div 1024"
    using assms by linarith
  ultimately have "uint (get_light_intensity adc_count) = 100"
    by (simp add: get_light_intensity_clamp)
  then show ?thesis
    by (simp add: word_uint_eq_iff)
qed

lemma als_level_unclamped_mono:
  assumes ab: "sint a \<le> sint b" and b: "sint b \<le> 335749"
  shows "sint (als_level_unclamped a) \<le> sint (als_level_unclamped b)"
proof (cases "sint b < 0")
  case True
  with ab show ?thesis
    by (simp add: als_level_unclamped_negative)
next
  case nb: False
  then have lb: "sint (als_level_unclamped b) = sint b * 100 div 1024 - 20"
    using b by (simp add: als_level_unclamped_sint)
  show ?thesis
  proof (cases "sint a < 0")
    case True
    then have "sint (als_level_unclamped a) = - 20"
      by (simp add: als_level_unclamped_negative)
    moreover have "0 \<le> sint b * 100 div 1024"
      using nb by simp
    ultimately show ?thesis
      using lb by simp
  next
    case False
    then have "sint (als_level_unclamped a) = sint a * 100 div 1024 - 20"
      using ab b by (simp add: als_level_unclamped_sint)
    moreover have "sint a * 100 div 1024 \<le> sint b * 100 div 1024"
      using ab by (intro zdiv_mono1) simp_all
    ultimately show ?thesis
      using lb by simp
  qed
qed

text \<open>
  Claim C2.  Every negative count gives 0, and every sufficiently large count gives 100.
  The first half holds (\<open>get_light_intensity_negative\<close>) and the result is 100 for
  the counts from 1229 to 335749 (\<open>get_light_intensity_saturates\<close>).  At the count
  335750 the product 33575000 and the shift result 32788 are exact in 32 bits, the level
  \<open>32788 - 20 = 32768\<close> does not fit the \<open>int16\<close> variable \<open>als_level\<close> and is stored
  as -32768, which the second limiting statement turns into 0.  The same happens at
  21474836, the largest count whose product with 100 fits 32 bits.
\<close>

theorem get_light_intensity_large_count:
  "get_light_intensity 335749 = 100 \<and> get_light_intensity 335750 = 0 \<and>
   get_light_intensity 21474836 = 0"
  by (simp add: get_light_intensity_def als_level_unclamped_def ALS_OFFSET_def word_sless_alt)

text \<open>
  Claim C3.  The level before the limiting statements is monotonic in the count and the
  result lies between 0 and 100.  The bound holds for every count
  (\<open>get_light_intensity_le_100\<close>) and the level is monotonic up to the count 335749
  (\<open>als_level_unclamped_mono\<close>).  From 335749 to 335750 the stored level falls from
  32767 to -32768, and the result from 100 to 0.
\<close>

theorem als_level_unclamped_falls:
  "335749 \<le>s (335750 :: int32) \<and>
   sint (als_level_unclamped 335749) = 32767 \<and>
   sint (als_level_unclamped 335750) = - 32768 \<and>
   \<not> get_light_intensity 335749 \<le> get_light_intensity 335750"
  by (simp add: get_light_intensity_def als_level_unclamped_def ALS_OFFSET_def
      word_sless_alt word_sle_eq)

section \<open>Properties of low_pass_filter\<close>

subsection \<open>Signed 32-bit arithmetic that stays in range\<close>

lemma bit7_mask: "(128::int32) = push_bit 7 1"
  by simp

lemma and_0x80:
  fixes a :: int32
  shows "a AND 0x00000080 = (if bit a 7 then 0x80 else 0)"
  unfolding bit7_mask
  by (rule bit_word_eqI) (auto simp: bit_simps simp del: push_bit_of_1)

lemma rounding_bit:
  fixes a :: int32
  shows "signed_drop_bit 7 (a AND 0x00000080) = (if bit a 7 then 1 else 0)"
  by (simp add: and_0x80)

lemma sint32_add:
  fixes a b :: int32
  assumes "- 2147483648 \<le> sint a + sint b" and "sint a + sint b \<le> 2147483647"
  shows "sint (a + b) = sint a + sint b"
  using assms by (simp add: sint_word_ariths signed_take_bit_int_eq_self)

lemma sint32_diff:
  fixes a b :: int32
  assumes "- 2147483648 \<le> sint a - sint b" and "sint a - sint b \<le> 2147483647"
  shows "sint (a - b) = sint a - sint b"
  using assms by (simp add: sint_word_ariths signed_take_bit_int_eq_self)

lemma sint32_mult:
  fixes a b :: int32
  assumes "- 2147483648 \<le> sint a * sint b" and "sint a * sint b \<le> 2147483647"
  shows "sint (a * b) = sint a * sint b"
  using assms by (simp add: sint_word_ariths signed_take_bit_int_eq_self)

lemma sint_shift_in:
  fixes x :: int32
  assumes "- 32768 \<le> sint x" and "sint x \<le> 32767"
  shows "sint (push_bit 8 x) = sint x * 256"
proof -
  have "- 2147483648 \<le> sint x * sint (256 :: int32)"
    and "sint x * sint (256 :: int32) \<le> 2147483647"
    using assms by simp_all
  then have "sint (x * 256) = sint x * sint (256 :: int32)"
    by (rule sint32_mult)
  then show ?thesis
    by (simp add: push_bit_eq_mult)
qed

lemma sint_scaled_difference:
  fixes x acc :: int32
  assumes "- 32768 \<le> sint x" and "sint x \<le> 32767"
    and "- 1073741824 \<le> sint acc" and "sint acc \<le> 1073741824"
  shows "sint (signed_drop_bit 8 (push_bit 8 x - acc)) = (sint x * 256 - sint acc) div 256"
proof -
  have s: "sint (push_bit 8 x) = sint x * 256"
    using assms by (simp add: sint_shift_in)
  have "- 2147483648 \<le> sint (push_bit 8 x) - sint acc"
    and "sint (push_bit 8 x) - sint acc \<le> 2147483647"
    using assms by (simp_all add: s)
  then have "sint (push_bit 8 x - acc) = sint (push_bit 8 x) - sint acc"
    by (rule sint32_diff)
  then show ?thesis
    by (simp add: sint_signed_drop_bit_eq drop_bit_eq_div s)
qed

lemma sint_accumulate_160:
  fixes x acc :: int32
  assumes "- 32768 \<le> sint x" and "sint x \<le> 32767"
    and "- 1073741824 \<le> sint acc" and "sint acc \<le> 1073741824"
  shows "sint (acc + signed_drop_bit 8 (push_bit 8 x - acc) * 160) =
           spec_accumulate 160 (sint acc) (sint x)"
proof -
  let ?d = "(sint x * 256 - sint acc) div 256"
  let ?w = "signed_drop_bit 8 (push_bit 8 x - acc)"
  have d: "sint ?w = ?d"
    using assms by (rule sint_scaled_difference)
  have r: "- 4227072 \<le> ?d" "?d \<le> 4227071"
    using assms by linarith+
  have "- 2147483648 \<le> sint ?w * sint (160 :: int32)"
    and "sint ?w * sint (160 :: int32) \<le> 2147483647"
    using r by (simp_all add: d)
  then have "sint (?w * 160) = sint ?w * sint (160 :: int32)"
    by (rule sint32_mult)
  then have m: "sint (?w * 160) = ?d * 160"
    by (simp add: d)
  have "- 2147483648 \<le> sint acc + sint (?w * 160)"
    and "sint acc + sint (?w * 160) \<le> 2147483647"
    using r assms by (simp_all add: m)
  then have "sint (acc + ?w * 160) = sint acc + sint (?w * 160)"
    by (rule sint32_add)
  then have "sint (acc + ?w * 160) = sint acc + ?d * 160"
    by (simp only: m)
  then show ?thesis
    by (simp add: spec_accumulate_def drop_bit_eq_div push_bit_int_def)
qed

lemma sint_accumulate_4:
  fixes x acc :: int32
  assumes "- 32768 \<le> sint x" and "sint x \<le> 32767"
    and "- 1073741824 \<le> sint acc" and "sint acc \<le> 1073741824"
  shows "sint (acc + signed_drop_bit 8 (push_bit 8 x - acc) * 4) =
           spec_accumulate 4 (sint acc) (sint x)"
proof -
  let ?d = "(sint x * 256 - sint acc) div 256"
  let ?w = "signed_drop_bit 8 (push_bit 8 x - acc)"
  have d: "sint ?w = ?d"
    using assms by (rule sint_scaled_difference)
  have r: "- 4227072 \<le> ?d" "?d \<le> 4227071"
    using assms by linarith+
  have "- 2147483648 \<le> sint ?w * sint (4 :: int32)"
    and "sint ?w * sint (4 :: int32) \<le> 2147483647"
    using r by (simp_all add: d)
  then have "sint (?w * 4) = sint ?w * sint (4 :: int32)"
    by (rule sint32_mult)
  then have m: "sint (?w * 4) = ?d * 4"
    by (simp add: d)
  have "- 2147483648 \<le> sint acc + sint (?w * 4)"
    and "sint acc + sint (?w * 4) \<le> 2147483647"
    using r assms by (simp_all add: m)
  then have "sint (acc + ?w * 4) = sint acc + sint (?w * 4)"
    by (rule sint32_add)
  then have "sint (acc + ?w * 4) = sint acc + ?d * 4"
    by (simp only: m)
  then show ?thesis
    by (simp add: spec_accumulate_def drop_bit_eq_div push_bit_int_def)
qed

lemma sint_rounded:
  fixes a :: int32
  shows "sint (signed_drop_bit 8 a + signed_drop_bit 7 (a AND 0x00000080)) = spec_filtered (sint a)"
proof -
  let ?q = "sint a div 256"
  have q: "sint (signed_drop_bit 8 a) = ?q"
    by (simp add: sint_signed_drop_bit_eq drop_bit_eq_div)
  have lo: "- 2147483648 \<le> sint a" and hi: "sint a \<le> 2147483647"
    using sint_ge [of a] sint_lt [of a] by simp_all
  have r: "- 8388608 \<le> ?q" "?q \<le> 8388607"
    using lo hi by linarith+
  have b: "bit (sint a) 7 = bit a 7"
    by (simp add: bit_sint_iff)
  show ?thesis
  proof (cases "bit a 7")
    case True
    have "- 2147483648 \<le> sint (signed_drop_bit 8 a) + sint (1 :: int32)"
      and "sint (signed_drop_bit 8 a) + sint (1 :: int32) \<le> 2147483647"
      using r by (simp_all add: q)
    then have "sint (signed_drop_bit 8 a + 1) = sint (signed_drop_bit 8 a) + sint (1 :: int32)"
      by (rule sint32_add)
    with True show ?thesis
      by (simp add: rounding_bit q spec_filtered_def b drop_bit_eq_div)
  next
    case False
    then show ?thesis
      by (simp add: rounding_bit q spec_filtered_def b drop_bit_eq_div)
  qed
qed

lemma half_round: "(y::int) div 2 + (if odd y then 1 else 0) = (y + 1) div 2"
  by presburger

lemma spec_filtered_round: "spec_filtered accumulator = (accumulator + 128) div 256"
proof -
  have a: "accumulator div 256 = accumulator div 128 div 2"
    using zdiv_zmult2_eq [of 2 accumulator 128] by simp
  have b: "(accumulator + 128) div 256 = (accumulator div 128 + 1) div 2"
    using zdiv_zmult2_eq [of 2 "accumulator + 128" 128] by simp
  have "accumulator div 256 + (if odd (accumulator div 128) then 1 else 0)
          = (accumulator + 128) div 256"
    unfolding a b by (rule half_round)
  then show ?thesis
    by (simp add: spec_filtered_def drop_bit_eq_div bit_iff_odd)
qed

section \<open>Properties of the sample loop\<close>

subsection \<open>One FIFO entry\<close>

lemmas channel_defs =
  THERMISTOR_SENSOR_CHANNEL_def REF_RESISTOR_CHANNEL_def ALS_SENSOR_CHANNEL_def CHANNEL_COUNT_def

lemmas threshold_defs = ALS_LOW_THRESHOLD_def ALS_HIGH_THRESHOLD_def

lemmas run_defs = init_state_def main_iteration_def process_batch_def
      process_sample_def low_pass_filter_def sar_fifo_interrupt_handler_def channel_defs
      ALS_DARK_AMBIENT_RAW_DATA_def ALS_DARK_AMBIENT_DATA_def get_light_intensity_def als_level_unclamped_def
      ALS_OFFSET_def word_sless_alt led_control_def led_write_def threshold_defs report_def
      Let_def

lemma channel_cases:
  assumes "ch < CHANNEL_COUNT"
  obtains "ch = 0" | "ch = 1" | "ch = 2"
  using assms unfolding CHANNEL_COUNT_def by linarith

lemma low_pass_filter_channel:
  assumes "ch < CHANNEL_COUNT"
  shows "low_pass_filter x (of_nat ch) fv =
    (let fv' = fv[ch := fv ! ch + signed_drop_bit 8 (push_bit 8 x - fv ! ch)
                          * (if ch = ALS_SENSOR_CHANNEL then 4 else 160)]
     in (signed_drop_bit 8 (fv' ! ch) + signed_drop_bit 7 (fv' ! ch AND 0x00000080), fv'))"
  using assms
  by (cases rule: channel_cases) (simp_all add: low_pass_filter_def channel_defs Let_def)

lemma process_sample_invalid:
  assumes "\<not> channel fifo_data < CHANNEL_COUNT"
  shows "process_sample st fifo_data = None"
  using assms by (simp add: process_sample_def)

lemma process_sample_defined:
  assumes "channel fifo_data < CHANNEL_COUNT"
  shows "\<exists>st'. process_sample st fifo_data = Some st'"
  using assms by (simp add: process_sample_def Let_def split: prod.split)

lemma process_sample_cold_start:
  assumes "ch < CHANNEL_COUNT" and "first_run st ! ch"
  shows "process_sample st \<lparr>fifo_value = raw, channel = ch\<rparr> =
           Some (st\<lparr>filtered_data := (filtered_data st)[ch := cold_start_input ch raw],
                    filt_var := (filt_var st)[ch := push_bit 8 (cold_start_input ch raw)],
                    first_run := (first_run st)[ch := False]\<rparr>)"
  using assms
  by (simp add: process_sample_def cold_start_input_def ALS_DARK_AMBIENT_DATA_def)

lemma process_sample_steady:
  assumes "ch < CHANNEL_COUNT" and "\<not> first_run st ! ch"
    and "length (filt_var st) = CHANNEL_COUNT"
  shows "process_sample st \<lparr>fifo_value = raw, channel = ch\<rparr> =
    (let acc = filt_var st ! ch
               + signed_drop_bit 8 (push_bit 8 (scast raw) - filt_var st ! ch)
                 * (if ch = ALS_SENSOR_CHANNEL then 4 else 160)
     in Some (st\<lparr>filtered_data := (filtered_data st)
                        [ch := signed_drop_bit 8 acc + signed_drop_bit 7 (acc AND 0x00000080)],
                  filt_var := (filt_var st)[ch := acc]\<rparr>))"
  using assms
  by (simp add: process_sample_def low_pass_filter_channel Let_def)

lemma process_sample_wf:
  assumes "process_sample st fifo_data = Some st'" and "wf_state st"
  shows "wf_state st'"
proof -
  obtain raw ch where f: "fifo_data = \<lparr>fifo_value = raw, channel = ch\<rparr>"
    by (cases fifo_data) simp
  have ch: "ch < CHANNEL_COUNT"
    using assms(1) f by (auto simp: process_sample_def split: if_splits)
  show ?thesis
  proof (cases "first_run st ! ch")
    case True
    with assms ch f show ?thesis
      by (auto simp: process_sample_cold_start wf_state_def)
  next
    case False
    with assms ch f show ?thesis
      by (auto simp: process_sample_steady wf_state_def Let_def)
  qed
qed

lemma process_sample_first_run:
  assumes "process_sample st fifo_data = Some st'" and "wf_state st" and "c < CHANNEL_COUNT"
  shows "first_run st' ! c = (first_run st ! c \<and> c \<noteq> channel fifo_data)"
proof -
  obtain raw ch where f: "fifo_data = \<lparr>fifo_value = raw, channel = ch\<rparr>"
    by (cases fifo_data) simp
  have ch: "ch < CHANNEL_COUNT"
    using assms(1) f by (auto simp: process_sample_def split: if_splits)
  have len: "length (first_run st) = CHANNEL_COUNT" "length (filt_var st) = CHANNEL_COUNT"
    using assms(2) by (simp_all add: wf_state_def)
  show ?thesis
  proof (cases "first_run st ! ch")
    case True
    with assms(1,3) ch f len show ?thesis
      by (auto simp: process_sample_cold_start nth_list_update split: if_splits)
  next
    case False
    with assms(1,3) ch f len show ?thesis
      by (auto simp: process_sample_steady Let_def)
  qed
qed

subsection \<open>The raw sample as a signed 16-bit value\<close>

lemma sint_raw_cast:
  fixes raw :: uint16
  shows "sint (scast raw :: int32) = sint raw"
  by (rule sint_up_scast) (simp add: is_up)

lemma sint_raw:
  fixes raw :: uint16
  shows "sint raw = (if 32768 \<le> uint raw then uint raw - 65536 else uint raw)"
proof -
  have b: "0 \<le> uint raw" "uint raw < 65536"
    using uint_lt2p [of raw] by simp_all
  have s: "sint raw = (uint raw + 32768) mod 65536 - 32768"
    by (simp add: sint_uint signed_take_bit_eq_take_bit_shift take_bit_eq_mod)
  show ?thesis
  proof (cases "32768 \<le> uint raw")
    case True
    have "uint raw + 32768 = uint raw - 32768 + 1 * 65536"
      by simp
    then have "(uint raw + 32768) mod 65536 = (uint raw - 32768 + 1 * 65536) mod 65536"
      by (rule arg_cong)
    also have "\<dots> = (uint raw - 32768) mod 65536"
      by (rule mod_mult_self1)
    also have "\<dots> = uint raw - 32768"
      using True b by (simp add: mod_pos_pos_trivial)
    finally show ?thesis
      using True s by simp
  next
    case False
    then have "(uint raw + 32768) mod 65536 = uint raw + 32768"
      using b by (simp add: mod_pos_pos_trivial)
    then show ?thesis
      using False s by simp
  qed
qed

lemma scast_raw_negative:
  fixes raw :: uint16
  assumes "32768 \<le> uint raw"
  shows "(scast raw :: int32) = word_of_int (uint raw - 65536)"
proof -
  have "sint (scast raw :: int32) = uint raw - 65536"
    using assms by (simp add: sint_raw_cast sint_raw)
  then have "word_of_int (sint (scast raw :: int32)) = (word_of_int (uint raw - 65536) :: int32)"
    by simp
  then show ?thesis
    by simp
qed

subsection \<open>The drain loop and the main loop\<close>

lemma drain_defined:
  assumes "valid_fifo fifo"
  shows "\<exists>st'. drain st fifo = Some st'"
  using assms
proof (induction fifo arbitrary: st)
  case Nil
  then show ?case by simp
next
  case (Cons fifo_data rest)
  then have v: "channel fifo_data < CHANNEL_COUNT" "valid_fifo rest"
    by (simp_all add: valid_fifo_def)
  obtain st1 where s: "process_sample st fifo_data = Some st1"
    using process_sample_defined [OF v(1)] by blast
  with Cons.IH [OF v(2), of st1] show ?case
    by simp
qed

lemma drain_wf:
  assumes "drain st fifo = Some st'" and "wf_state st"
  shows "wf_state st'"
  using assms
proof (induction fifo arbitrary: st)
  case Nil
  then show ?case by simp
next
  case (Cons fifo_data rest)
  then show ?case
    by (auto split: option.splits dest: process_sample_wf)
qed

lemma drain_first_run_stays_clear:
  assumes "drain st fifo = Some st'" and "wf_state st" and "c < CHANNEL_COUNT"
    and "\<not> first_run st ! c"
  shows "\<not> first_run st' ! c"
  using assms
proof (induction fifo arbitrary: st)
  case Nil
  then show ?case by simp
next
  case (Cons fifo_data rest)
  from Cons.prems(1) obtain st1 where s: "process_sample st fifo_data = Some st1"
    and d: "drain st1 rest = Some st'"
    by (auto split: option.splits)
  have "wf_state st1"
    using s Cons.prems(2) by (rule process_sample_wf)
  moreover have "\<not> first_run st1 ! c"
    using process_sample_first_run [OF s Cons.prems(2,3)] Cons.prems(4) by simp
  ultimately show ?case
    using Cons.IH [OF d] Cons.prems(3) by simp
qed

lemma drain_frame:
  assumes "drain st fifo = Some st'"
  shows "display_delay st' = display_delay st \<and> led st' = led st \<and>
         fifo_intr_flag st' = fifo_intr_flag st"
  using assms
proof (induction fifo arbitrary: st)
  case Nil
  then show ?case by simp
next
  case (Cons fifo_data rest)
  from Cons.prems obtain st1 where s: "process_sample st fifo_data = Some st1"
    and d: "drain st1 rest = Some st'"
    by (auto split: option.splits)
  have "display_delay st1 = display_delay st \<and> led st1 = led st \<and>
        fifo_intr_flag st1 = fifo_intr_flag st"
    using s by (auto simp: process_sample_def Let_def split: if_splits prod.splits)
  with Cons.IH [OF d] show ?case
    by simp
qed

lemma process_batch_drain:
  assumes "process_batch st fifo = Some (st', out)"
  obtains st1 where "drain (st\<lparr>fifo_intr_flag := False\<rparr>) fifo = Some st1"
    and "st' = st1\<lparr>led := led_control (get_light_intensity (filtered_data st1 ! ALS_SENSOR_CHANNEL)) (led st1),
                   display_delay := fst (report (display_delay st1)
                      (Status_line (filtered_data st1 ! THERMISTOR_SENSOR_CHANNEL)
                                   (filtered_data st1 ! REF_RESISTOR_CHANNEL)
                                   (get_light_intensity (filtered_data st1 ! ALS_SENSOR_CHANNEL))))\<rparr>"
    and "out = snd (report (display_delay st1)
                      (Status_line (filtered_data st1 ! THERMISTOR_SENSOR_CHANNEL)
                                   (filtered_data st1 ! REF_RESISTOR_CHANNEL)
                                   (get_light_intensity (filtered_data st1 ! ALS_SENSOR_CHANNEL))))"
  using assms
  by (auto simp: process_batch_def Let_def split: option.splits prod.splits)

lemma process_batch_wf:
  assumes "process_batch st fifo = Some (st', out)" and "wf_state st"
  shows "wf_state st'"
proof -
  from assms(1) obtain st1 where d: "drain (st\<lparr>fifo_intr_flag := False\<rparr>) fifo = Some st1"
    and st': "filt_var st' = filt_var st1" "filtered_data st' = filtered_data st1"
      "first_run st' = first_run st1"
    by (auto simp: process_batch_def Let_def split: option.splits prod.splits)
  have "wf_state (st\<lparr>fifo_intr_flag := False\<rparr>)"
    using assms(2) by (simp add: wf_state_def)
  with d have "wf_state st1"
    by (rule drain_wf)
  with st' show ?thesis
    by (simp add: wf_state_def)
qed

lemma process_batch_first_run_stays_clear:
  assumes "process_batch st fifo = Some (st', out)" and "wf_state st" and "c < CHANNEL_COUNT"
    and "\<not> first_run st ! c"
  shows "\<not> first_run st' ! c"
proof -
  from assms(1) obtain st1 where d: "drain (st\<lparr>fifo_intr_flag := False\<rparr>) fifo = Some st1"
    and st': "first_run st' = first_run st1"
    by (auto simp: process_batch_def Let_def split: option.splits prod.splits)
  have "wf_state (st\<lparr>fifo_intr_flag := False\<rparr>)"
    using assms(2) by (simp add: wf_state_def)
  moreover have "\<not> first_run (st\<lparr>fifo_intr_flag := False\<rparr>) ! c"
    using assms(4) by simp
  ultimately have "\<not> first_run st1 ! c"
    using d assms(3) by (intro drain_first_run_stays_clear [OF d]) 
  with st' show ?thesis
    by simp
qed

lemma process_batch_led:
  assumes "process_batch st fifo = Some (st', out)"
  shows "led st' = led_control (get_light_intensity (filtered_data st' ! ALS_SENSOR_CHANNEL)) (led st)"
proof -
  from assms obtain st1 where d: "drain (st\<lparr>fifo_intr_flag := False\<rparr>) fifo = Some st1"
    and l: "led st' = led_control (get_light_intensity (filtered_data st1 ! ALS_SENSOR_CHANNEL)) (led st1)"
    and f: "filtered_data st' = filtered_data st1"
    by (auto simp: process_batch_def Let_def split: option.splits prod.splits)
  have "led st1 = led st"
    using drain_frame [OF d] by simp
  with l f show ?thesis
    by simp
qed

lemma process_batch_report:
  assumes "process_batch st fifo = Some (st', out)"
  shows "\<exists>line. display_delay st' = fst (report (display_delay st) line) \<and>
                out = snd (report (display_delay st) line) \<and> \<not> fifo_intr_flag st'"
proof -
  from assms obtain st1 where d: "drain (st\<lparr>fifo_intr_flag := False\<rparr>) fifo = Some st1"
    and st': "st' = st1\<lparr>led := led_control (get_light_intensity (filtered_data st1 ! ALS_SENSOR_CHANNEL)) (led st1),
                   display_delay := fst (report (display_delay st1)
                      (Status_line (filtered_data st1 ! THERMISTOR_SENSOR_CHANNEL)
                                   (filtered_data st1 ! REF_RESISTOR_CHANNEL)
                                   (get_light_intensity (filtered_data st1 ! ALS_SENSOR_CHANNEL))))\<rparr>"
    and out: "out = snd (report (display_delay st1)
                      (Status_line (filtered_data st1 ! THERMISTOR_SENSOR_CHANNEL)
                                   (filtered_data st1 ! REF_RESISTOR_CHANNEL)
                                   (get_light_intensity (filtered_data st1 ! ALS_SENSOR_CHANNEL))))"
    by (rule process_batch_drain)
  have "display_delay st1 = display_delay st" "\<not> fifo_intr_flag st1"
    using drain_frame [OF d] by simp_all
  with st' out show ?thesis
    by auto
qed

lemma main_iteration_wf:
  assumes "main_iteration st fifo = Some (st', out)" and "wf_state st"
  shows "wf_state st'"
  using assms by (auto simp: main_iteration_def split: if_splits dest: process_batch_wf)

lemma main_iteration_first_run_stays_clear:
  assumes "main_iteration st fifo = Some (st', out)" and "wf_state st" and "c < CHANNEL_COUNT"
    and "\<not> first_run st ! c"
  shows "\<not> first_run st' ! c"
  using assms
  by (auto simp: main_iteration_def split: if_splits
      dest: process_batch_first_run_stays_clear)

lemma main_iteration_defined:
  assumes "valid_fifo fifo"
  shows "\<exists>st' out. main_iteration st fifo = Some (st', out)"
proof -
  obtain st1 where "drain (st\<lparr>fifo_intr_flag := False\<rparr>) fifo = Some st1"
    using drain_defined [OF assms] by blast
  then show ?thesis
    by (simp add: main_iteration_def process_batch_def Let_def split: prod.splits)
qed

lemma main_loop_first_run_stays_clear:
  assumes "main_loop st events = Some (st', out)" and "wf_state st" and "c < CHANNEL_COUNT"
    and "\<not> first_run st ! c"
  shows "\<not> first_run st' ! c"
  using assms
proof (induction st events arbitrary: out rule: main_loop.induct)
  case (1 st)
  then show ?case by simp
next
  case (2 st es)
  have "wf_state (sar_fifo_interrupt_handler st)"
    using "2.prems"(2) by (simp add: wf_state_def sar_fifo_interrupt_handler_def)
  moreover have "\<not> first_run (sar_fifo_interrupt_handler st) ! c"
    using "2.prems"(4) by (simp add: sar_fifo_interrupt_handler_def)
  ultimately show ?case
    using "2.IH" "2.prems"(1,3) by simp
next
  case (3 st fifo es)
  from "3.prems"(1) obtain st1 out1 out2
    where it: "main_iteration st fifo = Some (st1, out1)"
      and rest: "main_loop st1 es = Some (st', out2)"
    by (auto split: option.splits prod.splits)
  have "wf_state st1"
    using it "3.prems"(2) by (rule main_iteration_wf)
  moreover have "\<not> first_run st1 ! c"
    using it "3.prems"(2,3,4) by (rule main_iteration_first_run_stays_clear)
  ultimately show ?case
    using "3.IH" [OF it refl rest] "3.prems"(3) by simp
qed

lemma main_loop_defined:
  assumes "valid_events events"
  shows "\<exists>st' out. main_loop st events = Some (st', out)"
  using assms
proof (induction st events rule: main_loop.induct)
  case (1 st)
  then show ?case by simp
next
  case (2 st es)
  then show ?case by simp
next
  case (3 st fifo es)
  then have v: "valid_fifo fifo" "valid_events es"
    by simp_all
  obtain st1 out1 where it: "main_iteration st fifo = Some (st1, out1)"
    using main_iteration_defined [OF v(1)] by blast
  obtain st2 out2 where "main_loop st1 es = Some (st2, out2)"
    using "3.IH" [OF it refl v(2)] by blast
  with it show ?case
    by simp
qed

lemma cold_start_count_eq:
  assumes "wf_state st" and "valid_fifo fifo" and "c < CHANNEL_COUNT"
  shows "cold_start_count c st fifo =
           (if first_run st ! c \<and> c \<in> channel ` set fifo then 1 else 0)"
  using assms
proof (induction fifo arbitrary: st)
  case Nil
  then show ?case by simp
next
  case (Cons fifo_data rest)
  have v: "channel fifo_data < CHANNEL_COUNT" "valid_fifo rest"
    using Cons.prems(2) by (simp_all add: valid_fifo_def)
  obtain st' where s: "process_sample st fifo_data = Some st'"
    using process_sample_defined [OF v(1)] by blast
  have wf': "wf_state st'"
    using s Cons.prems(1) by (rule process_sample_wf)
  have fr: "first_run st' ! c = (first_run st ! c \<and> c \<noteq> channel fifo_data)"
    using s Cons.prems(1,3) by (rule process_sample_first_run)
  have ih: "cold_start_count c st' rest =
              (if first_run st' ! c \<and> c \<in> channel ` set rest then 1 else 0)"
    using wf' v(2) Cons.prems(3) by (rule Cons.IH)
  show ?case
    by (auto simp: s ih fr)
qed

lemma drain_first_run:
  assumes "drain st fifo = Some st'" and "wf_state st" and "c < CHANNEL_COUNT"
  shows "first_run st' ! c = (first_run st ! c \<and> c \<notin> channel ` set fifo)"
  using assms
proof (induction fifo arbitrary: st)
  case Nil
  then show ?case by simp
next
  case (Cons fifo_data rest)
  from Cons.prems(1) obtain st1 where s: "process_sample st fifo_data = Some st1"
    and d: "drain st1 rest = Some st'"
    by (auto split: option.splits)
  have wf1: "wf_state st1"
    using s Cons.prems(2) by (rule process_sample_wf)
  have "first_run st1 ! c = (first_run st ! c \<and> c \<noteq> channel fifo_data)"
    using s Cons.prems(2,3) by (rule process_sample_first_run)
  with Cons.IH [OF d wf1 Cons.prems(3)] show ?case
    by auto
qed

lemma main_iteration_first_run:
  assumes "main_iteration st fifo = Some (st', out)" and "wf_state st" and "c < CHANNEL_COUNT"
  shows "first_run st' ! c =
           (first_run st ! c \<and> \<not> (fifo_intr_flag st \<and> c \<in> channel ` set fifo))"
proof (cases "fifo_intr_flag st")
  case False
  with assms(1) show ?thesis
    by (simp add: main_iteration_def)
next
  case True
  with assms(1) have "process_batch st fifo = Some (st', out)"
    by (simp add: main_iteration_def)
  then obtain st1 where d: "drain (st\<lparr>fifo_intr_flag := False\<rparr>) fifo = Some st1"
    and f: "first_run st' = first_run st1"
    by (auto simp: process_batch_def Let_def split: option.splits prod.splits)
  have "wf_state (st\<lparr>fifo_intr_flag := False\<rparr>)"
    using assms(2) by (simp add: wf_state_def)
  with d have "first_run st1 ! c =
      (first_run (st\<lparr>fifo_intr_flag := False\<rparr>) ! c \<and> c \<notin> channel ` set fifo)"
    using assms(3) by (rule drain_first_run)
  with f True show ?thesis
    by simp
qed

lemma run_cold_starts_eq:
  assumes "wf_state st" and "valid_events events" and "c < CHANNEL_COUNT"
  shows "run_cold_starts c st events =
           (if first_run st ! c \<and> c \<in> channel ` set (processed_entries (fifo_intr_flag st) events)
            then 1 else 0)"
  using assms
proof (induction st events rule: main_loop.induct)
  case (1 st)
  then show ?case by simp
next
  case (2 st es)
  have "wf_state (sar_fifo_interrupt_handler st)"
    using "2.prems"(1) by (simp add: wf_state_def sar_fifo_interrupt_handler_def)
  with "2.IH" "2.prems"(2,3) show ?case
    by (simp add: sar_fifo_interrupt_handler_def)
next
  case (3 st fifo es)
  have v: "valid_fifo fifo" "valid_events es"
    using "3.prems"(2) by simp_all
  obtain st1 out1 where it: "main_iteration st fifo = Some (st1, out1)"
    using main_iteration_defined [OF v(1)] by blast
  have wf1: "wf_state st1"
    using it "3.prems"(1) by (rule main_iteration_wf)
  have fr: "first_run st1 ! c =
           (first_run st ! c \<and> \<not> (fifo_intr_flag st \<and> c \<in> channel ` set fifo))"
    using it "3.prems"(1,3) by (rule main_iteration_first_run)
  have ih: "run_cold_starts c st1 es =
           (if first_run st1 ! c \<and> c \<in> channel ` set (processed_entries (fifo_intr_flag st1) es)
            then 1 else 0)"
    using "3.IH" [OF it refl wf1 v(2) "3.prems"(3)] .
  show ?case
  proof (cases "fifo_intr_flag st")
    case False
    with it have "st1 = st"
      by (simp add: main_iteration_def)
    with False it ih show ?thesis
      by simp
  next
    case True
    with it have "process_batch st fifo = Some (st1, out1)"
      by (simp add: main_iteration_def)
    then have f1: "\<not> fifo_intr_flag st1"
      using process_batch_report by blast
    have "wf_state (st\<lparr>fifo_intr_flag := False\<rparr>)"
      using "3.prems"(1) by (simp add: wf_state_def)
    then have cnt: "cold_start_count c (st\<lparr>fifo_intr_flag := False\<rparr>) fifo =
        (if first_run st ! c \<and> c \<in> channel ` set fifo then 1 else 0)"
      using v(1) "3.prems"(3) by (simp add: cold_start_count_eq)
    show ?thesis
      using True it ih f1 fr cnt by auto
  qed
qed

section \<open>The filter bank\<close>

subsection \<open>The accumulators of reachable states\<close>

text \<open>
  An update moves the accumulator towards the shifted input and not beyond it (by less
  than 256 when it comes from above), so every accumulator of a state reached from the
  initial state stays in a range where no 32-bit operation of the filter wraps.
\<close>

lemma list_all_update:
  assumes "list_all P xs" and "P x"
  shows "list_all P (xs[i := x])"
  using assms set_update_subset_insert [of xs i x] by (auto simp: list_all_iff)

lemma spec_accumulate_bounds:
  assumes w: "weight = 4 \<or> weight = 160"
  shows "min accumulator (input * 256 - 255) \<le> spec_accumulate weight accumulator input \<and>
         spec_accumulate weight accumulator input \<le> max accumulator (input * 256)"
proof -
  define d where "d = (input * 256 - accumulator) div 256"
  have d: "256 * d \<le> input * 256 - accumulator" "input * 256 - accumulator < 256 * d + 256"
    unfolding d_def by linarith+
  have s: "spec_accumulate weight accumulator input = accumulator + d * weight"
    by (simp add: spec_accumulate_def d_def drop_bit_eq_div push_bit_int_def)
  show ?thesis
  proof (cases "0 \<le> d")
    case True
    with w d show ?thesis unfolding s by auto
  next
    case False
    with w d show ?thesis unfolding s by auto
  qed
qed

lemma sint_seed:
  fixes raw :: uint16
  shows "sint (push_bit 8 (ucast raw :: int32)) = uint raw * 256"
proof -
  have b: "0 \<le> uint raw" "uint raw < 65536"
    using uint_lt2p [of raw] by simp_all
  have u: "uint (ucast raw :: int32) = uint raw"
    by (rule uint_up_ucast) (simp add: is_up)
  have "sint (ucast raw :: int32) = signed_take_bit 31 (uint raw)"
    by (simp only: sint_uint u) simp
  then have s: "sint (ucast raw :: int32) = uint raw"
    using b by (simp add: signed_take_bit_int_eq_self)
  have c: "sint (256 :: int32) = 256"
    by simp
  have "- 2147483648 \<le> sint (ucast raw :: int32) * sint (256 :: int32)"
    and "sint (ucast raw :: int32) * sint (256 :: int32) \<le> 2147483647"
    using b unfolding s c by linarith+
  then have "sint ((ucast raw :: int32) * 256) = sint (ucast raw :: int32) * sint (256 :: int32)"
    by (rule sint32_mult)
  then show ?thesis
    by (simp add: push_bit_eq_mult s)
qed

lemma sint_cold_start_accumulator:
  "0 \<le> sint (push_bit 8 (cold_start_input ch raw)) \<and>
   sint (push_bit 8 (cold_start_input ch raw)) \<le> 16776960"
proof -
  have b: "0 \<le> uint raw" "uint raw < 65536"
    using uint_lt2p [of raw] by simp_all
  then show ?thesis
    by (simp add: cold_start_input_def ALS_DARK_AMBIENT_DATA_def sint_seed)
qed

lemma steady_accumulator_in_range:
  fixes acc :: int32 and raw :: uint16
  assumes "- 8388863 \<le> sint acc" and "sint acc \<le> 16776960"
  shows "- 8388863 \<le> sint (acc + signed_drop_bit 8 (push_bit 8 (scast raw) - acc)
                                  * (if ch = ALS_SENSOR_CHANNEL then 4 else 160)) \<and>
         sint (acc + signed_drop_bit 8 (push_bit 8 (scast raw) - acc)
                 * (if ch = ALS_SENSOR_CHANNEL then 4 else 160)) \<le> 16776960"
proof -
  let ?x = "scast raw :: int32"
  have x: "- 32768 \<le> sint ?x" "sint ?x \<le> 32767"
    using sint_ge [of raw] sint_lt [of raw] by (simp_all add: sint_raw_cast)
  have a: "- 1073741824 \<le> sint acc" "sint acc \<le> 1073741824"
    using assms by linarith+
  show ?thesis
  proof (cases "ch = ALS_SENSOR_CHANNEL")
    case True
    have "sint (acc + signed_drop_bit 8 (push_bit 8 ?x - acc) * 4) =
            spec_accumulate 4 (sint acc) (sint ?x)"
      using x a by (rule sint_accumulate_4)
    moreover have "min (sint acc) (sint ?x * 256 - 255) \<le> spec_accumulate 4 (sint acc) (sint ?x) \<and>
         spec_accumulate 4 (sint acc) (sint ?x) \<le> max (sint acc) (sint ?x * 256)"
      by (rule spec_accumulate_bounds) simp
    ultimately show ?thesis
      using True x assms by auto
  next
    case False
    have "sint (acc + signed_drop_bit 8 (push_bit 8 ?x - acc) * 160) =
            spec_accumulate 160 (sint acc) (sint ?x)"
      using x a by (rule sint_accumulate_160)
    moreover have "min (sint acc) (sint ?x * 256 - 255) \<le> spec_accumulate 160 (sint acc) (sint ?x) \<and>
         spec_accumulate 160 (sint acc) (sint ?x) \<le> max (sint acc) (sint ?x * 256)"
      by (rule spec_accumulate_bounds) simp
    ultimately show ?thesis
      using False x assms by auto
  qed
qed

lemma process_sample_in_range:
  assumes "process_sample st fifo_data = Some st'" and "wf_state st" and "filt_var_in_range st"
  shows "filt_var_in_range st'"
proof -
  obtain raw ch where f: "fifo_data = \<lparr>fifo_value = raw, channel = ch\<rparr>"
    by (cases fifo_data) simp
  have ch: "ch < CHANNEL_COUNT"
    using assms(1) f by (auto simp: process_sample_def split: if_splits)
  have len: "length (filt_var st) = CHANNEL_COUNT"
    using assms(2) by (simp add: wf_state_def)
  let ?P = "\<lambda>acc :: int32. - 8388863 \<le> sint acc \<and> sint acc \<le> 16776960"
  have all: "list_all ?P (filt_var st)"
    using assms(3) by (simp add: filt_var_in_range_def)
  show ?thesis
  proof (cases "first_run st ! ch")
    case True
    have "?P (push_bit 8 (cold_start_input ch raw))"
      using sint_cold_start_accumulator [of ch raw] by linarith
    with all have "list_all ?P ((filt_var st)[ch := push_bit 8 (cold_start_input ch raw)])"
      by (rule list_all_update)
    with assms(1) f ch True show ?thesis
      by (auto simp: process_sample_cold_start filt_var_in_range_def)
  next
    case False
    let ?acc = "filt_var st ! ch"
    have "?P ?acc"
      using all ch len by (simp add: list_all_length)
    then have "?P (?acc + signed_drop_bit 8 (push_bit 8 (scast raw) - ?acc)
                              * (if ch = ALS_SENSOR_CHANNEL then 4 else 160))"
      using steady_accumulator_in_range [of ?acc raw ch] by blast
    with all have "list_all ?P ((filt_var st)[ch := ?acc + signed_drop_bit 8 (push_bit 8 (scast raw) - ?acc)
                              * (if ch = ALS_SENSOR_CHANNEL then 4 else 160)])"
      by (rule list_all_update)
    with assms(1) f ch False len show ?thesis
      by (auto simp: process_sample_steady filt_var_in_range_def Let_def)
  qed
qed

lemma drain_in_range:
  assumes "drain st fifo = Some st'" and "wf_state st" and "filt_var_in_range st"
  shows "filt_var_in_range st'"
  using assms
proof (induction fifo arbitrary: st)
  case Nil
  then show ?case by simp
next
  case (Cons fifo_data rest)
  from Cons.prems(1) obtain st1 where s: "process_sample st fifo_data = Some st1"
    and d: "drain st1 rest = Some st'"
    by (auto split: option.splits)
  have "wf_state st1"
    using s Cons.prems(2) by (rule process_sample_wf)
  moreover have "filt_var_in_range st1"
    using s Cons.prems(2,3) by (rule process_sample_in_range)
  ultimately show ?case
    using Cons.IH [OF d] by simp
qed

lemma main_iteration_in_range:
  assumes "main_iteration st fifo = Some (st', out)" and "wf_state st" and "filt_var_in_range st"
  shows "filt_var_in_range st'"
proof (cases "fifo_intr_flag st")
  case False
  with assms show ?thesis
    by (simp add: main_iteration_def)
next
  case True
  with assms(1) have "process_batch st fifo = Some (st', out)"
    by (simp add: main_iteration_def)
  then obtain st1 where d: "drain (st\<lparr>fifo_intr_flag := False\<rparr>) fifo = Some st1"
    and f: "filt_var st' = filt_var st1"
    by (auto simp: process_batch_def Let_def split: option.splits prod.splits)
  have "wf_state (st\<lparr>fifo_intr_flag := False\<rparr>)" "filt_var_in_range (st\<lparr>fifo_intr_flag := False\<rparr>)"
    using assms(2,3) by (simp_all add: wf_state_def filt_var_in_range_def)
  with d have "filt_var_in_range st1"
    by (rule drain_in_range)
  with f show ?thesis
    by (simp add: filt_var_in_range_def)
qed

lemma main_loop_in_range:
  assumes "main_loop st events = Some (st', out)" and "wf_state st" and "filt_var_in_range st"
  shows "filt_var_in_range st'"
  using assms
proof (induction st events arbitrary: out rule: main_loop.induct)
  case (1 st)
  then show ?case by simp
next
  case (2 st es)
  have "wf_state (sar_fifo_interrupt_handler st)"
    "filt_var_in_range (sar_fifo_interrupt_handler st)"
    using "2.prems"(2,3)
    by (simp_all add: wf_state_def filt_var_in_range_def sar_fifo_interrupt_handler_def)
  then show ?case
    using "2.IH" "2.prems"(1) by simp
next
  case (3 st fifo es)
  from "3.prems"(1) obtain st1 out1 out2
    where it: "main_iteration st fifo = Some (st1, out1)"
      and rest: "main_loop st1 es = Some (st', out2)"
    by (auto split: option.splits prod.splits)
  have "wf_state st1"
    using it "3.prems"(2) by (rule main_iteration_wf)
  moreover have "filt_var_in_range st1"
    using it "3.prems"(2,3) by (rule main_iteration_in_range)
  ultimately show ?case
    using "3.IH" [OF it refl rest] by simp
qed

lemma main_loop_wf:
  assumes "main_loop st events = Some (st', out)" and "wf_state st"
  shows "wf_state st'"
  using assms
proof (induction st events arbitrary: out rule: main_loop.induct)
  case (1 st)
  then show ?case by simp
next
  case (2 st es)
  have "wf_state (sar_fifo_interrupt_handler st)"
    using "2.prems"(2) by (simp add: wf_state_def sar_fifo_interrupt_handler_def)
  then show ?case
    using "2.IH" "2.prems"(1) by simp
next
  case (3 st fifo es)
  from "3.prems"(1) obtain st1 out1 out2
    where it: "main_iteration st fifo = Some (st1, out1)"
      and rest: "main_loop st1 es = Some (st', out2)"
    by (auto split: option.splits prod.splits)
  have "wf_state st1"
    using it "3.prems"(2) by (rule main_iteration_wf)
  then show ?case
    using "3.IH" [OF it refl rest] by simp
qed

lemma init_state_wf: "wf_state (init_state d0 d1 d2)"
  by (simp add: wf_state_def init_state_def CHANNEL_COUNT_def)

lemma reachable_in_range:
  assumes "main_loop (init_state d0 d1 d2) events = Some (st, out)"
  shows "wf_state st \<and> filt_var_in_range st"
proof -
  have "filt_var_in_range (init_state d0 d1 d2)"
    by (simp add: filt_var_in_range_def init_state_def)
  with assms init_state_wf show ?thesis
    by (blast intro: main_loop_wf main_loop_in_range)
qed

subsection \<open>Steady state and cold start\<close>

text \<open>
  Claim C5.  For a sample of a channel whose first-run flag is cleared, the loop body
  replaces the channel's accumulator \<open>filt_var[ch]\<close> by
  \<open>accumulator + (((input << 8) - accumulator) >> 8) * weight\<close>, with weight 160 for the
  thermistor and the reference resistor and 4 for the ambient light sensor, where
  \<open>input\<close> is the raw sample read as a signed 16-bit value; it stores
  \<open>(accumulator >> 8)\<close> plus 1 if the bit of value \<open>0x80\<close> is set as the filtered
  value, and changes nothing else.  Read as integers, the stored value is the
  specification's rounded accumulator, that is the accumulator divided by 256 and rounded
  to the nearest integer, and the new accumulator is the specification's
  update whenever the old one lies between \<open>-2^30\<close> and \<open>2^30\<close>, where no 32-bit operation wraps;
  the accumulators of every reachable state do (\<open>reachable_in_range\<close>).
\<close>

theorem steady_state_filter:
  assumes "wf_state st" and "ch < CHANNEL_COUNT" and "\<not> first_run st ! ch"
  shows
    "let accumulator = filt_var st ! ch;
         input = scast raw;
         weight = (if ch = ALS_SENSOR_CHANNEL then 4 else 160);
         accumulator' = accumulator + signed_drop_bit 8 (push_bit 8 input - accumulator) * weight;
         k = signed_drop_bit 8 accumulator' + (if bit accumulator' 7 then 1 else 0)
     in process_sample st \<lparr>fifo_value = raw, channel = ch\<rparr> =
          Some (st\<lparr>filtered_data := (filtered_data st)[ch := k],
                   filt_var := (filt_var st)[ch := accumulator']\<rparr>) \<and>
        sint k = spec_filtered (sint accumulator') \<and>
        sint k = (sint accumulator' + 128) div 256 \<and>
        (- 1073741824 \<le> sint accumulator \<and> sint accumulator \<le> 1073741824 \<longrightarrow>
           sint accumulator' = spec_accumulate (spec_weight ch) (sint accumulator) (sint raw))"
proof -
  let ?acc = "filt_var st ! ch"
  let ?x = "scast raw :: int32"
  have len: "length (filt_var st) = CHANNEL_COUNT"
    using assms(1) by (simp add: wf_state_def)
  have x: "- 32768 \<le> sint ?x" "sint ?x \<le> 32767"
    using sint_ge [of raw] sint_lt [of raw] by (simp_all add: sint_raw_cast)
  have step: "process_sample st \<lparr>fifo_value = raw, channel = ch\<rparr> =
    (let acc = ?acc + signed_drop_bit 8 (push_bit 8 ?x - ?acc)
                 * (if ch = ALS_SENSOR_CHANNEL then 4 else 160)
     in Some (st\<lparr>filtered_data := (filtered_data st)
                        [ch := signed_drop_bit 8 acc + signed_drop_bit 7 (acc AND 0x00000080)],
                  filt_var := (filt_var st)[ch := acc]\<rparr>))"
    using assms(2,3) len by (rule process_sample_steady)
  have out: "sint (signed_drop_bit 8 a + (if bit a 7 then 1 else 0)) = spec_filtered (sint a)"
    for a :: int32
    using sint_rounded [of a] by (simp only: rounding_bit)
  have acc: "sint (?acc + signed_drop_bit 8 (push_bit 8 ?x - ?acc)
                     * (if ch = ALS_SENSOR_CHANNEL then 4 else 160)) =
             spec_accumulate (spec_weight ch) (sint ?acc) (sint raw)"
    if "- 1073741824 \<le> sint ?acc" and "sint ?acc \<le> 1073741824"
  proof (cases "ch = ALS_SENSOR_CHANNEL")
    case True
    then show ?thesis
      using sint_accumulate_4 [OF x that] by (simp add: spec_weight_def sint_raw_cast)
  next
    case False
    then show ?thesis
      using sint_accumulate_160 [OF x that] by (simp add: spec_weight_def sint_raw_cast)
  qed
  show ?thesis
    unfolding Let_def
    apply (intro conjI impI)
    subgoal using step by (simp only: Let_def rounding_bit)
    subgoal by (rule out)
    subgoal by (simp only: out spec_filtered_round)
    subgoal by (rule acc) simp_all
    done
qed

text \<open>
  The scenario of the specification: the thermistor channel was seeded with 2000, the
  next sample is 2100.  The accumulator goes from 512000 to 528000 and the filtered
  value is 2063.
\<close>

theorem steady_state_filter_witness:
  "wf_state \<lparr>filt_var = [0, 512000, 0], filtered_data = [0, 2000, 0],
          first_run = [True, False, True], display_delay = 0,
          led = CYBSP_LED_STATE_OFF, fifo_intr_flag = False\<rparr> \<and>
   THERMISTOR_SENSOR_CHANNEL < CHANNEL_COUNT \<and>
   \<not> first_run \<lparr>filt_var = [0, 512000, 0], filtered_data = [0, 2000, 0],
          first_run = [True, False, True], display_delay = 0,
          led = CYBSP_LED_STATE_OFF, fifo_intr_flag = False\<rparr> ! THERMISTOR_SENSOR_CHANNEL \<and>
   process_sample \<lparr>filt_var = [0, 512000, 0], filtered_data = [0, 2000, 0],
          first_run = [True, False, True], display_delay = 0,
          led = CYBSP_LED_STATE_OFF, fifo_intr_flag = False\<rparr>
      \<lparr>fifo_value = 2100, channel = THERMISTOR_SENSOR_CHANNEL\<rparr> =
     Some \<lparr>filt_var = [0, 528000, 0], filtered_data = [0, 2063, 0],
          first_run = [True, False, True], display_delay = 0,
          led = CYBSP_LED_STATE_OFF, fifo_intr_flag = False\<rparr> \<and>
   spec_accumulate (spec_weight THERMISTOR_SENSOR_CHANNEL) 512000 2100 = 528000 \<and>
   spec_filtered 528000 = 2063 \<and> (528000 + 128) div 256 = (2063 :: int)"
  using steady_state_filter [of "\<lparr>filt_var = [0, 512000, 0], filtered_data = [0, 2000, 0],
          first_run = [True, False, True], display_delay = 0,
          led = CYBSP_LED_STATE_OFF, fifo_intr_flag = False\<rparr>" THERMISTOR_SENSOR_CHANNEL 2100]
  by (simp add: wf_state_def channel_defs spec_accumulate_def spec_weight_def spec_filtered_def Let_def)

text \<open>
  Claim C6.  For each of the three channels: while the channel's first-run flag is set,
  a sample stores the input (0 for a dark ambient light sample, the raw value otherwise)
  unmodified as the filtered value, stores the input shifted left by 8 as the accumulator
  and clears the flag.  Over the entries of one pass of the drain loop, and over a whole
  run of the main loop from any state, the first-run branch is entered for the channel
  exactly once if its flag is set at the start and the channel occurs among the entries
  processed, and never otherwise.  All three flags are set in the initial state.
\<close>

theorem cold_start_once:
  assumes "wf_state st" and "ch < CHANNEL_COUNT"
  shows
    "(first_run st ! ch \<longrightarrow>
        process_sample st \<lparr>fifo_value = raw, channel = ch\<rparr> =
          Some (st\<lparr>filtered_data := (filtered_data st)[ch := cold_start_input ch raw],
                   filt_var := (filt_var st)[ch := push_bit 8 (cold_start_input ch raw)],
                   first_run := (first_run st)[ch := False]\<rparr>)) \<and>
     (valid_fifo fifo \<longrightarrow>
        cold_start_count ch st fifo =
          (if first_run st ! ch \<and> ch \<in> channel ` set fifo then 1 else 0)) \<and>
     (valid_events events \<longrightarrow>
        run_cold_starts ch st events =
          (if first_run st ! ch \<and>
              ch \<in> channel ` set (processed_entries (fifo_intr_flag st) events)
           then 1 else 0))"
proof (intro conjI impI)
  assume "first_run st ! ch"
  with assms(2) show "process_sample st \<lparr>fifo_value = raw, channel = ch\<rparr> =
          Some (st\<lparr>filtered_data := (filtered_data st)[ch := cold_start_input ch raw],
                   filt_var := (filt_var st)[ch := push_bit 8 (cold_start_input ch raw)],
                   first_run := (first_run st)[ch := False]\<rparr>)"
    by (rule process_sample_cold_start)
next
  assume "valid_fifo fifo"
  with assms show "cold_start_count ch st fifo =
          (if first_run st ! ch \<and> ch \<in> channel ` set fifo then 1 else 0)"
    by (simp add: cold_start_count_eq)
next
  assume "valid_events events"
  with assms show "run_cold_starts ch st events =
          (if first_run st ! ch \<and>
              ch \<in> channel ` set (processed_entries (fifo_intr_flag st) events)
           then 1 else 0)"
    by (simp add: run_cold_starts_eq)
qed

theorem cold_start_once_witness:
  "wf_state (init_state 7 8 9) \<and> ALS_SENSOR_CHANNEL < CHANNEL_COUNT \<and>
   first_run (init_state 7 8 9) ! ALS_SENSOR_CHANNEL \<and>
   process_sample (init_state 7 8 9) \<lparr>fifo_value = 0xFFF5, channel = ALS_SENSOR_CHANNEL\<rparr> =
     Some ((init_state 7 8 9)\<lparr>filtered_data := [7, 8, 0], filt_var := [0, 0, 0],
                               first_run := [True, True, False]\<rparr>) \<and>
   valid_fifo [\<lparr>fifo_value = 0xFFF5, channel = 2\<rparr>, \<lparr>fifo_value = 2000, channel = 1\<rparr>,
               \<lparr>fifo_value = 300, channel = 2\<rparr>, \<lparr>fifo_value = 0xFFF0, channel = 2\<rparr>] \<and>
   cold_start_count ALS_SENSOR_CHANNEL (init_state 7 8 9)
     [\<lparr>fifo_value = 0xFFF5, channel = 2\<rparr>, \<lparr>fifo_value = 2000, channel = 1\<rparr>,
      \<lparr>fifo_value = 300, channel = 2\<rparr>, \<lparr>fifo_value = 0xFFF0, channel = 2\<rparr>] = 1 \<and>
   valid_events example_events \<and>
   run_cold_starts ALS_SENSOR_CHANNEL (init_state 7 8 9) example_events = 1"
  using cold_start_once [where st = "init_state 7 8 9" and ch = ALS_SENSOR_CHANNEL
      and raw = "0xFFF5" and events = example_events and fifo =
      "[\<lparr>fifo_value = 0xFFF5, channel = 2\<rparr>, \<lparr>fifo_value = 2000, channel = 1\<rparr>,
        \<lparr>fifo_value = 300, channel = 2\<rparr>, \<lparr>fifo_value = 0xFFF0, channel = 2\<rparr>]"]
  by (simp add: wf_state_def init_state_def channel_defs valid_fifo_def cold_start_input_def
      ALS_DARK_AMBIENT_RAW_DATA_def ALS_DARK_AMBIENT_DATA_def example_events_def
      del: cold_start_count.simps run_cold_starts.simps)

text \<open>
  Claim C1.  As stated, a raw ambient light sample at or above \<open>0xFFF0\<close> would enter the
  filter as 0 on every call, so that processing it would be the same as processing the
  raw value 0.  After the channel has been seeded with 17, the raw sample \<open>0xFFF0\<close>
  gives the accumulator 4220 and the filtered value 16, the raw sample 0 gives 4284 and 17.
\<close>

theorem dark_coercion_counterexample:
  "drain (init_state 7 8 9)
     [\<lparr>fifo_value = 17, channel = ALS_SENSOR_CHANNEL\<rparr>,
      \<lparr>fifo_value = 0xFFF0, channel = ALS_SENSOR_CHANNEL\<rparr>] =
     Some \<lparr>filt_var = [0, 0, 4220], filtered_data = [7, 8, 16],
           first_run = [True, True, False], display_delay = 0,
           led = CYBSP_LED_STATE_OFF, fifo_intr_flag = False\<rparr> \<and>
   drain (init_state 7 8 9)
     [\<lparr>fifo_value = 17, channel = ALS_SENSOR_CHANNEL\<rparr>,
      \<lparr>fifo_value = 0, channel = ALS_SENSOR_CHANNEL\<rparr>] =
     Some \<lparr>filt_var = [0, 0, 4284], filtered_data = [7, 8, 17],
           first_run = [True, True, False], display_delay = 0,
           led = CYBSP_LED_STATE_OFF, fifo_intr_flag = False\<rparr> \<and>
   drain (init_state 7 8 9)
     [\<lparr>fifo_value = 17, channel = ALS_SENSOR_CHANNEL\<rparr>,
      \<lparr>fifo_value = 0xFFF0, channel = ALS_SENSOR_CHANNEL\<rparr>] \<noteq>
   drain (init_state 7 8 9)
     [\<lparr>fifo_value = 17, channel = ALS_SENSOR_CHANNEL\<rparr>,
      \<lparr>fifo_value = 0, channel = ALS_SENSOR_CHANNEL\<rparr>]"
  by (simp add: run_defs)

text \<open>
  Claim C1, as amended.  A raw ambient light sample at or above \<open>0xFFF0\<close> is replaced
  by 0 when it is the first sample of the channel: filtered value and accumulator become
  0.  On every later sample it is not replaced: it enters \<open>low_pass_filter\<close> as the
  negative number \<open>raw - 65536\<close>, between -16 and -1.
\<close>

theorem dark_coercion_first_sample_only:
  assumes "wf_state st" and "ALS_DARK_AMBIENT_RAW_DATA \<le> uint raw"
  shows
    "(first_run st ! ALS_SENSOR_CHANNEL \<longrightarrow>
        process_sample st \<lparr>fifo_value = raw, channel = ALS_SENSOR_CHANNEL\<rparr> =
          Some (st\<lparr>filtered_data := (filtered_data st)[ALS_SENSOR_CHANNEL := ALS_DARK_AMBIENT_DATA],
                   filt_var := (filt_var st)[ALS_SENSOR_CHANNEL := ALS_DARK_AMBIENT_DATA],
                   first_run := (first_run st)[ALS_SENSOR_CHANNEL := False]\<rparr>)) \<and>
     (\<not> first_run st ! ALS_SENSOR_CHANNEL \<longrightarrow>
        process_sample st \<lparr>fifo_value = raw, channel = ALS_SENSOR_CHANNEL\<rparr> =
          (let (k, fv) = low_pass_filter (word_of_int (uint raw - 65536))
                           (of_nat ALS_SENSOR_CHANNEL) (filt_var st)
           in Some (st\<lparr>filtered_data := (filtered_data st)[ALS_SENSOR_CHANNEL := k],
                       filt_var := fv\<rparr>)) \<and>
        sint (word_of_int (uint raw - 65536) :: int32) = uint raw - 65536 \<and>
        - 16 \<le> uint raw - 65536 \<and> uint raw - 65536 \<le> - 1)"
proof -
  have r: "65520 \<le> uint raw" "uint raw < 65536"
    using assms(2) uint_lt2p [of raw] by (simp_all add: ALS_DARK_AMBIENT_RAW_DATA_def)
  then have c: "(scast raw :: int32) = word_of_int (uint raw - 65536)"
    by (intro scast_raw_negative) simp
  have s: "sint (word_of_int (uint raw - 65536) :: int32) = uint raw - 65536"
    unfolding sint_sbintrunc' using r by (simp add: signed_take_bit_int_eq_self)
  show ?thesis
  proof (intro conjI impI)
    assume "first_run st ! ALS_SENSOR_CHANNEL"
    then show "process_sample st \<lparr>fifo_value = raw, channel = ALS_SENSOR_CHANNEL\<rparr> =
          Some (st\<lparr>filtered_data := (filtered_data st)[ALS_SENSOR_CHANNEL := ALS_DARK_AMBIENT_DATA],
                   filt_var := (filt_var st)[ALS_SENSOR_CHANNEL := ALS_DARK_AMBIENT_DATA],
                   first_run := (first_run st)[ALS_SENSOR_CHANNEL := False]\<rparr>)"
      using assms(2) by (simp add: process_sample_def channel_defs)
  next
    assume "\<not> first_run st ! ALS_SENSOR_CHANNEL"
    then show "process_sample st \<lparr>fifo_value = raw, channel = ALS_SENSOR_CHANNEL\<rparr> =
          (let (k, fv) = low_pass_filter (word_of_int (uint raw - 65536))
                           (of_nat ALS_SENSOR_CHANNEL) (filt_var st)
           in Some (st\<lparr>filtered_data := (filtered_data st)[ALS_SENSOR_CHANNEL := k],
                       filt_var := fv\<rparr>))"
      by (subst c [symmetric]) (simp add: process_sample_def channel_defs)
  next
    show "sint (word_of_int (uint raw - 65536) :: int32) = uint raw - 65536"
      by (rule s)
    show "- 16 \<le> uint raw - 65536" "uint raw - 65536 \<le> - 1"
      using r by simp_all
  qed
qed

theorem dark_coercion_first_sample_only_witness:
  "wf_state (init_state 7 8 9) \<and>
   ALS_DARK_AMBIENT_RAW_DATA \<le> uint (0xFFF0 :: uint16) \<and>
   first_run (init_state 7 8 9) ! ALS_SENSOR_CHANNEL \<and>
   process_sample (init_state 7 8 9) \<lparr>fifo_value = 0xFFF0, channel = ALS_SENSOR_CHANNEL\<rparr> =
     Some \<lparr>filt_var = [0, 0, 0], filtered_data = [7, 8, 0],
           first_run = [True, True, False], display_delay = 0,
           led = CYBSP_LED_STATE_OFF, fifo_intr_flag = False\<rparr> \<and>
   \<not> first_run \<lparr>filt_var = [0, 0, 4352], filtered_data = [7, 8, 17],
           first_run = [True, True, False], display_delay = 0,
           led = CYBSP_LED_STATE_OFF, fifo_intr_flag = False\<rparr> ! ALS_SENSOR_CHANNEL \<and>
   process_sample \<lparr>filt_var = [0, 0, 4352], filtered_data = [7, 8, 17],
           first_run = [True, True, False], display_delay = 0,
           led = CYBSP_LED_STATE_OFF, fifo_intr_flag = False\<rparr>
       \<lparr>fifo_value = 0xFFF0, channel = ALS_SENSOR_CHANNEL\<rparr> =
     Some \<lparr>filt_var = [0, 0, 4220], filtered_data = [7, 8, 16],
           first_run = [True, True, False], display_delay = 0,
           led = CYBSP_LED_STATE_OFF, fifo_intr_flag = False\<rparr> \<and>
   uint (0xFFF0 :: uint16) - 65536 = - 16"
  using dark_coercion_first_sample_only [of "init_state 7 8 9" "0xFFF0"]
    dark_coercion_first_sample_only [of "\<lparr>filt_var = [0, 0, 4352], filtered_data = [7, 8, 17],
           first_run = [True, True, False], display_delay = 0,
           led = CYBSP_LED_STATE_OFF, fifo_intr_flag = False\<rparr>" "0xFFF0"]
  by (simp add: wf_state_def init_state_def channel_defs ALS_DARK_AMBIENT_RAW_DATA_def
      ALS_DARK_AMBIENT_DATA_def low_pass_filter_def Let_def)

text \<open>
  Claim C10.  When the first-run flag of the channel is cleared, the raw sample is
  passed to \<open>low_pass_filter\<close> cast to \<open>int16\<close>: as an integer the argument is
  \<open>raw - 65536\<close> for a raw value of 32768 or more, a negative number, and the raw value
  itself below.  This holds for every channel; the ambient light sample \<open>0xFFF0\<close>
  enters the filter as -16.
\<close>

theorem steady_state_signed_cast:
  assumes "wf_state st" and "ch < CHANNEL_COUNT" and "\<not> first_run st ! ch"
  shows
    "process_sample st \<lparr>fifo_value = raw, channel = ch\<rparr> =
       (let (k, fv) = low_pass_filter (scast raw) (of_nat ch) (filt_var st)
        in Some (st\<lparr>filtered_data := (filtered_data st)[ch := k], filt_var := fv\<rparr>)) \<and>
     sint (scast raw :: int32) = (if 32768 \<le> uint raw then uint raw - 65536 else uint raw) \<and>
     (32768 \<le> uint raw \<longrightarrow> sint (scast raw :: int32) < 0)"
proof -
  have b: "uint raw < 65536"
    using uint_lt2p [of raw] by simp
  have s: "sint (scast raw :: int32) = (if 32768 \<le> uint raw then uint raw - 65536 else uint raw)"
    by (simp only: sint_raw_cast sint_raw)
  have "process_sample st \<lparr>fifo_value = raw, channel = ch\<rparr> =
       (let (k, fv) = low_pass_filter (scast raw) (of_nat ch) (filt_var st)
        in Some (st\<lparr>filtered_data := (filtered_data st)[ch := k], filt_var := fv\<rparr>))"
    using assms(2,3) by (simp add: process_sample_def)
  moreover have "32768 \<le> uint raw \<longrightarrow> sint (scast raw :: int32) < 0"
    using b by (simp add: s)
  ultimately show ?thesis
    using s by blast
qed

theorem steady_state_signed_cast_witness:
  "wf_state \<lparr>filt_var = [0, 0, 4352], filtered_data = [7, 8, 17],
           first_run = [True, True, False], display_delay = 0,
           led = CYBSP_LED_STATE_OFF, fifo_intr_flag = False\<rparr> \<and>
   ALS_SENSOR_CHANNEL < CHANNEL_COUNT \<and>
   32768 \<le> uint (0xFFF0 :: uint16) \<and>
   sint (scast (0xFFF0 :: uint16) :: int32) = - 16 \<and>
   process_sample \<lparr>filt_var = [0, 0, 4352], filtered_data = [7, 8, 17],
           first_run = [True, True, False], display_delay = 0,
           led = CYBSP_LED_STATE_OFF, fifo_intr_flag = False\<rparr>
       \<lparr>fifo_value = 0xFFF0, channel = ALS_SENSOR_CHANNEL\<rparr> =
     Some \<lparr>filt_var = [0, 0, 4220], filtered_data = [7, 8, 16],
           first_run = [True, True, False], display_delay = 0,
           led = CYBSP_LED_STATE_OFF, fifo_intr_flag = False\<rparr>"
  using steady_state_signed_cast [of "\<lparr>filt_var = [0, 0, 4352], filtered_data = [7, 8, 17],
           first_run = [True, True, False], display_delay = 0,
           led = CYBSP_LED_STATE_OFF, fifo_intr_flag = False\<rparr>" ALS_SENSOR_CHANNEL "0xFFF0"]
  by (simp add: wf_state_def channel_defs low_pass_filter_def Let_def)

section \<open>Actuation and reporting\<close>

lemma led_sequence_dead_band:
  assumes "\<forall>light_intensity \<in> set lights. 45 \<le> uint light_intensity \<and> uint light_intensity \<le> 55"
  shows "led_sequence pin lights = pin"
  using assms
  by (induction lights arbitrary: pin) (simp_all add: led_control_def led_write_def threshold_defs)

text \<open>
  Claim C7.  The LED control statement writes ON exactly when the light intensity is
  below 45, writes OFF exactly when it is above 55, and writes nothing exactly when the
  intensity is in the band from 45 to 55.  After a drain cycle the pin shows the level
  written for the intensity of the filtered ambient light value, or its old level if
  nothing was written; over any sequence of intensities within the band the pin keeps
  its level, ON or OFF.
\<close>

theorem led_hysteresis:
  "(led_write light_intensity = Some CYBSP_LED_STATE_ON \<longleftrightarrow> uint light_intensity < 45) \<and>
   (led_write light_intensity = Some CYBSP_LED_STATE_OFF \<longleftrightarrow> 55 < uint light_intensity) \<and>
   (led_write light_intensity = None \<longleftrightarrow>
      45 \<le> uint light_intensity \<and> uint light_intensity \<le> 55) \<and>
   (process_batch st fifo = Some (st', out) \<longrightarrow>
      led st' =
        (case led_write (get_light_intensity (filtered_data st' ! ALS_SENSOR_CHANNEL)) of
           None \<Rightarrow> led st
         | Some level \<Rightarrow> level)) \<and>
   ((\<forall>l \<in> set lights. 45 \<le> uint l \<and> uint l \<le> 55) \<longrightarrow> led_sequence pin lights = pin)"
proof (intro conjI impI)
  show "led_write light_intensity = Some CYBSP_LED_STATE_ON \<longleftrightarrow> uint light_intensity < 45"
    by (simp add: led_write_def threshold_defs)
  show "led_write light_intensity = Some CYBSP_LED_STATE_OFF \<longleftrightarrow> 55 < uint light_intensity"
    by (simp add: led_write_def threshold_defs)
  show "led_write light_intensity = None \<longleftrightarrow>
      45 \<le> uint light_intensity \<and> uint light_intensity \<le> 55"
    by (auto simp: led_write_def threshold_defs)
next
  assume "process_batch st fifo = Some (st', out)"
  then show "led st' =
        (case led_write (get_light_intensity (filtered_data st' ! ALS_SENSOR_CHANNEL)) of
           None \<Rightarrow> led st
         | Some level \<Rightarrow> level)"
    by (simp add: process_batch_led led_control_def)
next
  assume "\<forall>l \<in> set lights. 45 \<le> uint l \<and> uint l \<le> 55"
  then show "led_sequence pin lights = pin"
    by (rule led_sequence_dead_band)
qed

lemma batch_example:
  "process_batch (init_state 7 8 9) [\<lparr>fifo_value = 500, channel = 2\<rparr>] =
     Some (\<lparr>filt_var = [0, 0, 128000], filtered_data = [7, 8, 500],
            first_run = [True, True, False], display_delay = 1,
            led = CYBSP_LED_STATE_ON, fifo_intr_flag = False\<rparr>, [])"
  by code_simp

theorem led_hysteresis_witness:
  "process_batch (init_state 7 8 9) [\<lparr>fifo_value = 500, channel = 2\<rparr>] =
     Some (\<lparr>filt_var = [0, 0, 128000], filtered_data = [7, 8, 500],
            first_run = [True, True, False], display_delay = 1,
            led = CYBSP_LED_STATE_ON, fifo_intr_flag = False\<rparr>, []) \<and>
   get_light_intensity 500 = 28 \<and>
   led_write 28 = Some CYBSP_LED_STATE_ON \<and>
   led_write 56 = Some CYBSP_LED_STATE_OFF \<and>
   led_write 45 = None \<and> led_write 55 = None \<and>
   led_sequence CYBSP_LED_STATE_ON [45, 50, 55] = CYBSP_LED_STATE_ON \<and>
   led_sequence CYBSP_LED_STATE_OFF [55, 46, 45] = CYBSP_LED_STATE_OFF"
proof -
  have g: "get_light_intensity 500 = 28"
    by code_simp
  have "led_sequence CYBSP_LED_STATE_ON [45, 50, 55] = CYBSP_LED_STATE_ON"
    using led_hysteresis [where lights = "[45, 50, 55]" and pin = CYBSP_LED_STATE_ON]
    by simp
  moreover have "led_sequence CYBSP_LED_STATE_OFF [55, 46, 45] = CYBSP_LED_STATE_OFF"
    using led_hysteresis [where lights = "[55, 46, 45]" and pin = CYBSP_LED_STATE_OFF]
    by simp
  moreover have "led_write 28 = Some CYBSP_LED_STATE_ON" "led_write 56 = Some CYBSP_LED_STATE_OFF"
    "led_write 45 = None" "led_write 55 = None"
    using led_hysteresis [where light_intensity = 28] led_hysteresis [where light_intensity = 56]
      led_hysteresis [where light_intensity = 45] led_hysteresis [where light_intensity = 55]
    by simp_all
  ultimately show ?thesis
    using batch_example g by simp
qed

text \<open>
  Claim C9.  A wake-up that finds \<open>fifo_intr_flag\<close> cleared leaves every variable as
  it was (filter variables, filtered values, first-run flags, pin, display counter and
  the flag itself), reads nothing from the FIFO and prints nothing; and so does any
  number of wake-ups in a row while no FIFO interrupt fires.
\<close>

theorem wake_without_flag:
  assumes "\<not> fifo_intr_flag st"
  shows "main_iteration st fifo = Some (st, []) \<and>
         (Fifo_interrupt \<notin> set events \<longrightarrow> main_loop st events = Some (st, []))"
proof
  show one: "main_iteration st fifo = Some (st, [])" for fifo
    using assms by (simp add: main_iteration_def)
  show "Fifo_interrupt \<notin> set events \<longrightarrow> main_loop st events = Some (st, [])"
  proof (induction events)
    case Nil
    show ?case by simp
  next
    case (Cons e es)
    show ?case
    proof (cases e)
      case Fifo_interrupt
      then show ?thesis by simp
    next
      case (Wake_up entries)
      with Cons.IH one [of entries] show ?thesis
        by simp
    qed
  qed
qed

theorem wake_without_flag_witness:
  "\<not> fifo_intr_flag (init_state 7 8 9) \<and>
   main_iteration (init_state 7 8 9) [\<lparr>fifo_value = 2000, channel = 1\<rparr>] =
     Some (init_state 7 8 9, []) \<and>
   Fifo_interrupt \<notin> set [Wake_up [\<lparr>fifo_value = 2000, channel = 1\<rparr>], Wake_up []] \<and>
   main_loop (init_state 7 8 9) [Wake_up [\<lparr>fifo_value = 2000, channel = 1\<rparr>], Wake_up []] =
     Some (init_state 7 8 9, [])"
proof -
  have h: "\<not> fifo_intr_flag (init_state 7 8 9)"
    by (simp add: init_state_def)
  have n: "Fifo_interrupt \<notin> set [Wake_up [\<lparr>fifo_value = 2000, channel = 1\<rparr>], Wake_up []]"
    by simp
  from wake_without_flag [OF h, of "[\<lparr>fifo_value = 2000, channel = 1\<rparr>]"
      "[Wake_up [\<lparr>fifo_value = 2000, channel = 1\<rparr>], Wake_up []]"] h n
  show ?thesis
    by blast
qed

lemma report_step:
  assumes "unat delay \<le> 4"
  shows "unat (fst (report delay line)) = Suc (unat delay) mod 5 \<and>
         length (snd (report delay line)) = Suc (unat delay) div 5"
proof (cases "delay = 4")
  case True
  then show ?thesis
    by (simp add: report_def)
next
  case False
  have "unat delay \<noteq> 4"
  proof
    assume "unat delay = 4"
    then have "word_of_nat (unat delay) = (word_of_nat 4 :: uint16)"
      by simp
    with False show False
      by simp
  qed
  with assms have lt: "unat delay < 4"
    by simp
  then have "unat (delay + 1) = Suc (unat delay)"
    by (simp add: unat_word_ariths)
  with False lt show ?thesis
    by (simp add: report_def)
qed

lemma div5_split: "(a::nat) div 5 + (a mod 5 + b) div 5 = (a + b) div 5"
  by presburger

lemma mod5_split: "((a::nat) mod 5 + b) mod 5 = (a + b) mod 5"
  by presburger

lemma main_loop_display:
  assumes "main_loop st events = Some (st', out)" and "unat (display_delay st) \<le> 4"
  shows "unat (display_delay st') =
           (unat (display_delay st) + drain_cycles (fifo_intr_flag st) events) mod 5 \<and>
         length out =
           (unat (display_delay st) + drain_cycles (fifo_intr_flag st) events) div 5"
  using assms
proof (induction st events arbitrary: out rule: main_loop.induct)
  case (1 st)
  then show ?case by auto
next
  case (2 st es)
  then show ?case
    by (simp add: sar_fifo_interrupt_handler_def)
next
  case (3 st fifo es)
  from "3.prems"(1) obtain st1 out1 out2
    where it: "main_iteration st fifo = Some (st1, out1)"
      and rest: "main_loop st1 es = Some (st', out2)"
      and out: "out = out1 @ out2"
    by (auto split: option.splits prod.splits)
  show ?case
  proof (cases "fifo_intr_flag st")
    case False
    with it have "st1 = st" "out1 = []"
      by (simp_all add: main_iteration_def)
    with "3.IH" [OF it refl rest] "3.prems"(2) False out show ?thesis
      by simp
  next
    case True
    with it have pb: "process_batch st fifo = Some (st1, out1)"
      by (simp add: main_iteration_def)
    then obtain line where d1: "display_delay st1 = fst (report (display_delay st) line)"
      and o1: "out1 = snd (report (display_delay st) line)"
      and f1: "\<not> fifo_intr_flag st1"
      using process_batch_report by blast
    let ?n = "unat (display_delay st)"
    let ?k = "drain_cycles False es"
    have s: "unat (display_delay st1) = Suc ?n mod 5" "length out1 = Suc ?n div 5"
      using report_step [OF "3.prems"(2), of line] d1 o1 by simp_all
    then have le: "unat (display_delay st1) \<le> 4"
      by simp
    have ih: "unat (display_delay st') = (Suc ?n mod 5 + ?k) mod 5"
      "length out2 = (Suc ?n mod 5 + ?k) div 5"
      using "3.IH" [OF it refl rest le] f1 s(1) by simp_all
    have "unat (display_delay st') = (?n + Suc ?k) mod 5"
      using ih(1) mod5_split [of "Suc ?n" ?k] by simp
    moreover have "length out = (?n + Suc ?k) div 5"
      using ih(2) s(2) out div5_split [of "Suc ?n" ?k] by simp
    ultimately show ?thesis
      using True by simp
  qed
qed

text \<open>
  Claim C8.  Starting with a display counter between 0 and 4, after any run of the main
  loop the counter is again between 0 and 4: it is the old counter plus the number of
  drain cycles, modulo 5, and the number of status lines printed is that sum divided by
  5.  In one cycle a counter equal to 4 prints the line and becomes 0, any other counter
  is incremented and prints nothing.  The counter of the initial state is 0.
\<close>

theorem display_counter:
  assumes "main_loop st events = Some (st', out)" and "unat (display_delay st) \<le> 4"
  shows
    "unat (display_delay st') \<le> 4 \<and>
     unat (display_delay st') =
       (unat (display_delay st) + drain_cycles (fifo_intr_flag st) events) mod 5 \<and>
     length out = (unat (display_delay st) + drain_cycles (fifo_intr_flag st) events) div 5 \<and>
     report (display_delay st) line =
       (if display_delay st = 4 then (0, [line]) else (display_delay st + 1, [])) \<and>
     display_delay (init_state d0 d1 d2) = 0"
proof -
  have "unat (display_delay st') =
           (unat (display_delay st) + drain_cycles (fifo_intr_flag st) events) mod 5 \<and>
         length out =
           (unat (display_delay st) + drain_cycles (fifo_intr_flag st) events) div 5"
    using assms by (rule main_loop_display)
  moreover from this have "unat (display_delay st') \<le> 4"
    by simp
  ultimately show ?thesis
    by (simp add: report_def init_state_def)
qed

lemma example_events_run:
  "main_loop (init_state 7 8 9) example_events =
   Some (\<lparr>filt_var = [509440, 512000, 128000], filtered_data = [1990, 2000, 500],
          first_run = [False, False, False], display_delay = 0,
          led = CYBSP_LED_STATE_ON, fifo_intr_flag = False\<rparr>,
         [Status_line 2000 1990 28])"
  by (simp add: example_events_def init_state_def main_iteration_def process_batch_def
      process_sample_def sar_fifo_interrupt_handler_def channel_defs
      ALS_DARK_AMBIENT_RAW_DATA_def get_light_intensity_def als_level_unclamped_def
      ALS_OFFSET_def word_sless_alt led_control_def led_write_def threshold_defs report_def
      Let_def)

lemma example_events_cycles:
  "drain_cycles (fifo_intr_flag (init_state 7 8 9)) example_events = 5"
  by (simp add: example_events_def init_state_def)

theorem display_counter_witness:
  "main_loop (init_state 7 8 9) example_events =
   Some (\<lparr>filt_var = [509440, 512000, 128000], filtered_data = [1990, 2000, 500],
          first_run = [False, False, False], display_delay = 0,
          led = CYBSP_LED_STATE_ON, fifo_intr_flag = False\<rparr>,
         [Status_line 2000 1990 28]) \<and>
   unat (display_delay (init_state 7 8 9)) \<le> 4 \<and>
   drain_cycles (fifo_intr_flag (init_state 7 8 9)) example_events = 5 \<and>
   length [Status_line 2000 1990 28] =
     (unat (display_delay (init_state 7 8 9))
      + drain_cycles (fifo_intr_flag (init_state 7 8 9)) example_events) div 5"
proof -
  have h: "unat (display_delay (init_state 7 8 9)) \<le> 4"
    by (simp add: init_state_def)
  have "length [Status_line 2000 1990 28] =
     (unat (display_delay (init_state 7 8 9))
      + drain_cycles (fifo_intr_flag (init_state 7 8 9)) example_events) div 5"
    by (rule display_counter [OF example_events_run h, THEN conjunct2, THEN conjunct2,
          THEN conjunct1])
  with example_events_run h example_events_cycles show ?thesis
    by (intro conjI)
qed

end
